theory Spec2Isabelle
  imports Complex_Main
begin

section \<open>The MiniMe avatar: data model\<close>

text \<open>
  The avatar front end is a set of React hooks and components.  Numbers are JavaScript
  doubles.  In the state machine and the synthesizers they are modelled as \<^typ>\<open>real\<close>, so
  a property there is a property of the arithmetic the source writes down, not of its
  rounding; the matrix, whose index computation depends on the rounding, is modelled with
  the rounding of doubles.  Times are milliseconds, as \<^typ>\<open>nat\<close>.

  \<^verbatim>\<open>type MiniMeState = 'idle' | 'wake' | 'listening' | 'thinking' | 'talk' | 'blink' | 'sleep'\<close>
\<close>

datatype MiniMeState = idle | wake | listening | thinking | talk | blink | sleep

text \<open>
  \<^verbatim>\<open>interface MiniMeStateConfig\<close> of \<^verbatim>\<open>useMiniMeState.ts\<close>.  \<^verbatim>\<open>wakeStartTime\<close> is
  \<^verbatim>\<open>number | null\<close>.
\<close>

record MiniMeStateConfig =
  state :: MiniMeState
  levels :: "real list"
  micLevel :: real
  lastBackendEvent :: nat
  wakeStartTime :: "nat option"

text \<open>
  The backend message \<^verbatim>\<open>{ event: string; levels?: number[] }\<close>: the kind is any string,
  the levels are optional.
\<close>

record BackendEvent =
  event :: string
  event_levels :: "real list option"

section \<open>Display projection\<close>

text \<open>
  \<^verbatim>\<open>const finalState = isBlinking && config.state !== 'talk' ? 'blink' : config.state;\<close>
\<close>

definition finalState :: "bool \<Rightarrow> MiniMeState \<Rightarrow> MiniMeState" where
  "finalState isBlinking s = (if isBlinking \<and> s \<noteq> talk then blink else s)"

section \<open>Animation synthesizers (MiniMeFace.tsx, useBlink.ts)\<close>

text \<open>
  Each generator fills \<^verbatim>\<open>frames[row][col]\<close> for \<^verbatim>\<open>row < rows\<close>, \<^verbatim>\<open>col < cols\<close> in two
  nested loops whose bodies do not depend on earlier iterations, so the result is the
  table of the body.
\<close>

definition idle_cell :: "nat \<Rightarrow> nat \<Rightarrow> real" where
  "idle_cell frame col = max 0 (sin ((real col + real frame * 0.1) * 0.5) * 0.3 + 0.3)"

definition generateIdleWave :: "nat \<Rightarrow> nat \<Rightarrow> nat \<Rightarrow> real list list" where
  "generateIdleWave frame rows cols =
     map (\<lambda>row. map (\<lambda>col. idle_cell frame col) [0..<cols]) [0..<rows]"

text \<open>
  \<^verbatim>\<open>Math.floor(rows / 2)\<close> on a non-negative integer is \<open>rows div 2\<close>; the differences
  \<^verbatim>\<open>row - centerRow\<close> are taken in the reals since they may be negative.
\<close>

definition wake_cell :: "nat \<Rightarrow> nat \<Rightarrow> nat \<Rightarrow> nat \<Rightarrow> nat \<Rightarrow> real" where
  "wake_cell frame rows cols row col =
     (let centerRow = rows div 2;
          centerCol = cols div 2;
          pulse = sin (real frame * 0.3) * 0.5 + 0.5;
          dist = sqrt ((real row - real centerRow)\<^sup>2 + (real col - real centerCol)\<^sup>2);
          maxDist = sqrt ((real rows)\<^sup>2 + (real cols)\<^sup>2);
          intensity = max 0 (1 - (dist / maxDist) * 2) * pulse
      in intensity * 0.9)"

definition generateWakePulse :: "nat \<Rightarrow> nat \<Rightarrow> nat \<Rightarrow> real list list" where
  "generateWakePulse frame rows cols =
     map (\<lambda>row. map (\<lambda>col. wake_cell frame rows cols row col) [0..<cols]) [0..<rows]"

text \<open>
  JavaScript's \<^verbatim>\<open>%\<close> on numbers truncates the quotient towards zero.
\<close>

definition js_rem :: "real \<Rightarrow> real \<Rightarrow> real" where
  "js_rem x y =
     (let q = x / y in x - y * of_int (if 0 \<le> q then \<lfloor>q\<rfloor> else \<lceil>q\<rceil>))"

definition thinking_cell :: "nat \<Rightarrow> nat \<Rightarrow> nat \<Rightarrow> real" where
  "thinking_cell frame row col =
     (let pulse = sin (real frame * 0.2) * 0.4 + 0.5;
          phase = js_rem (real col + real row + real frame * 0.2) 4
      in if phase < 2 then pulse else pulse * 0.3)"

definition generateThinkingPulse :: "nat \<Rightarrow> nat \<Rightarrow> nat \<Rightarrow> real list list" where
  "generateThinkingPulse frame rows cols =
     map (\<lambda>row. map (\<lambda>col. thinking_cell frame row col) [0..<cols]) [0..<rows]"

definition sleep_cell :: "nat \<Rightarrow> real" where
  "sleep_cell frame = sin (real frame * 0.05) * 0.1 + 0.1"

definition generateSleepPattern :: "nat \<Rightarrow> nat \<Rightarrow> nat \<Rightarrow> real list list" where
  "generateSleepPattern frame rows cols =
     map (\<lambda>row. map (\<lambda>col. sleep_cell frame) [0..<cols]) [0..<rows]"

definition blink_cell :: "nat \<Rightarrow> real" where
  "blink_cell row = (if row < 2 then 0.9 else 0.1)"

definition generateBlinkPattern :: "nat \<Rightarrow> nat \<Rightarrow> real list list" where
  "generateBlinkPattern rows cols =
     map (\<lambda>row. map (\<lambda>col. blink_cell row) [0..<cols]) [0..<rows]"

text \<open>
  The projection every branch of \<^verbatim>\<open>MiniMeFace\<close> repeats:
  \<^verbatim>\<open>Array.from({ length: 12 }, (_, col) => {
       const colValues = frames.map(row => row[col]);
       return colValues.reduce((a, b) => a + b, 0) / colValues.length; })\<close>
\<close>

definition column_average :: "real list list \<Rightarrow> real list" where
  "column_average frames =
     map (\<lambda>col. (let colValues = map (\<lambda>row. row ! col) frames
                 in foldl (+) 0 colValues / real (length colValues))) [0..<12]"

text \<open>
  The levels \<^verbatim>\<open>MiniMeFace\<close> hands to the matrix, from the displayed state, the levels
  it was given and its frame counter.
\<close>

definition animationLevels :: "MiniMeState \<Rightarrow> real list \<Rightarrow> nat \<Rightarrow> real list" where
  "animationLevels st lvls animationFrame =
     (if st = talk then (if length lvls > 0 then lvls else replicate 12 0)
      else if st = listening then (if length lvls > 0 then lvls else replicate 12 0)
      else if st = blink then column_average (generateBlinkPattern 7 12)
      else if st = idle then column_average (generateIdleWave animationFrame 7 12)
      else if st = wake then column_average (generateWakePulse animationFrame 7 12)
      else if st = thinking then column_average (generateThinkingPulse animationFrame 7 12)
      else if st = sleep then column_average (generateSleepPattern animationFrame 7 12)
      else replicate 12 0.0)"

section \<open>Double precision\<close>

text \<open>
  A JavaScript number is an IEEE 754 double: the result of a division or a multiplication
  is the exact result rounded to the nearest number with a significand of 53 bits, a tie
  going to the even significand.  \<open>double x\<close> is that rounding of the real \<open>x\<close>.  The
  exponent range is not modelled: integers below \<open>2 ^ 53\<close> and their quotients, which
  are all that the matrix computes with, are far from overflow and from the subnormal
  numbers.

  \<open>bits n\<close> is the number of binary digits of \<open>n\<close>, and \<open>exponent x\<close>, for a positive
  \<open>x\<close>, is the \<open>e\<close> with \<open>2 ^ e \<le> x < 2 ^ (e + 1)\<close>.
\<close>

fun bits :: "nat \<Rightarrow> nat" where
  "bits n = (if n = 0 then 0 else Suc (bits (n div 2)))"

declare bits.simps [simp del]

definition pow2 :: "int \<Rightarrow> real" where
  "pow2 e = (if 0 \<le> e then 2 ^ nat e else 1 / 2 ^ nat (- e))"

definition exponent :: "real \<Rightarrow> int" where
  "exponent x =
     (if 1 \<le> x then int (bits (nat \<lfloor>x\<rfloor>)) - 1
      else - int (bits (nat (\<lceil>1 / x\<rceil> - 1))))"

definition round_even :: "real \<Rightarrow> int" where
  "round_even q =
     (let f = \<lfloor>q\<rfloor>; r = q - of_int f
      in if r < 1 / 2 then f else if 1 / 2 < r then f + 1
         else if even f then f else f + 1)"

definition round_pos :: "real \<Rightarrow> real" where
  "round_pos x = (let ulp = pow2 (exponent x - 52) in of_int (round_even (x / ulp)) * ulp)"

definition double :: "real \<Rightarrow> real" where
  "double x = (if x = 0 then 0 else if x < 0 then - round_pos (- x) else round_pos x)"

section \<open>The LED matrix (matrix.tsx)\<close>

datatype MatrixMode = vu | static

record Palette =
  on_color :: string
  off_color :: string

text \<open>
  A JavaScript array read never fails: an index outside the array yields \<^verbatim>\<open>undefined\<close>.
  An entry of the \<^verbatim>\<open>levels\<close> array is \<open>Some v\<close> for a number and \<open>None\<close> for a hole
  (\<^verbatim>\<open>undefined\<close>); \<^verbatim>\<open>x || 0\<close> replaces \<^verbatim>\<open>undefined\<close> (and the number 0) by 0.
\<close>

definition js_index :: "'a option list \<Rightarrow> nat \<Rightarrow> 'a option" where
  "js_index xs i = (if i < length xs then xs ! i else None)"

definition or_zero :: "real option \<Rightarrow> real" where
  "or_zero x = (case x of None \<Rightarrow> 0 | Some v \<Rightarrow> v)"

text \<open>
  \<^verbatim>\<open>Math.floor((col / cols) * levels.length)\<close>: the division and the multiplication
  round; \<open>col\<close>, \<open>cols\<close> and the length are integers, which doubles hold exactly.  The
  result is not negative, so \<^verbatim>\<open>Math.floor\<close> gives a natural number.
\<close>

definition levelIndex :: "nat \<Rightarrow> nat \<Rightarrow> real option list \<Rightarrow> nat" where
  "levelIndex cols col lvls =
     nat \<lfloor>double (double (real col / real cols) * real (length lvls))\<rfloor>"

text \<open>
  \<^verbatim>\<open>rows - 1 - row\<close> is an integer, exact; the division by \<^verbatim>\<open>rows\<close> rounds.
\<close>

definition getCellColor ::
  "nat \<Rightarrow> nat \<Rightarrow> MatrixMode \<Rightarrow> real option list \<Rightarrow> Palette \<Rightarrow> nat \<Rightarrow> nat \<Rightarrow> string" where
  "getCellColor rows cols mode lvls palette row col =
     (if mode = vu \<and> length lvls > 0 then
        (let level = or_zero (js_index lvls (levelIndex cols col lvls));
             rowFromBottom = real rows - 1 - real row;
             threshold = double (rowFromBottom / real rows)
         in if level > threshold then on_color palette else off_color palette)
      else off_color palette)"

text \<open>
  The grid: \<^verbatim>\<open>Array.from({ length: rows * cols }).map((_, index) => ...)\<close> with
  \<^verbatim>\<open>row = Math.floor(index / cols)\<close> and \<^verbatim>\<open>col = index % cols\<close>.
\<close>

definition matrix_cells ::
  "nat \<Rightarrow> nat \<Rightarrow> MatrixMode \<Rightarrow> real option list \<Rightarrow> Palette \<Rightarrow> string list" where
  "matrix_cells rows cols mode lvls palette =
     map (\<lambda>index. getCellColor rows cols mode lvls palette (index div cols) (index mod cols))
       [0..<rows * cols]"

section \<open>The frame counter of MiniMeFace\<close>

text \<open>
  \<^verbatim>\<open>MiniMeFace\<close> keeps \<^verbatim>\<open>animationFrame\<close> and one effect on \<^verbatim>\<open>[state]\<close>:
  \<^verbatim>\<open>if (state === 'idle' || state === 'wake' || state === 'thinking' || state === 'sleep') {
       const interval = setInterval(() => setAnimationFrame(prev => prev + 1), 50);
       return () => clearInterval(interval);
     } else { setAnimationFrame(0); }\<close>
  The component's state is the counter, the time of the interval's next tick (\<open>None\<close> when
  no interval is set) and the clock.
\<close>

record Face =
  animationFrame :: nat
  interval :: "nat option"
  face_clock :: nat

definition animated :: "MiniMeState \<Rightarrow> bool" where
  "animated st = (st = idle \<or> st = wake \<or> st = thinking \<or> st = sleep)"

text \<open>
  The effect runs when the displayed state changes: first the cleanup of the previous run
  (clearing its interval), then the body.
\<close>

definition face_effect :: "MiniMeState \<Rightarrow> Face \<Rightarrow> Face" where
  "face_effect st f =
     (let f1 = f\<lparr>interval := None\<rparr>
      in if animated st then f1\<lparr>interval := Some (face_clock f + 50)\<rparr>
         else f1\<lparr>animationFrame := 0\<rparr>)"

text \<open>
  Time passing up to the instant \<open>t\<close>: the interval's callback runs at each of its ticks
  that is due, and the next tick is 50 ms later.
\<close>

function face_advance :: "nat \<Rightarrow> Face \<Rightarrow> Face" where
  "face_advance t f =
     (case interval f of
        None \<Rightarrow> f\<lparr>face_clock := max (face_clock f) t\<rparr>
      | Some due \<Rightarrow>
          if due \<le> t
          then face_advance t
                 (f\<lparr>animationFrame := animationFrame f + 1, interval := Some (due + 50),
                    face_clock := max (face_clock f) due\<rparr>)
          else f\<lparr>face_clock := max (face_clock f) t\<rparr>)"
  by pat_completeness auto
termination
  by (relation "measure (\<lambda>(t, f). case interval f of None \<Rightarrow> 0 | Some due \<Rightarrow> Suc t - due)")
     auto

section \<open>Claims about the pure parts\<close>

text \<open>
  C5.  For a logical state \<open>s\<close> (the hook never stores \<open>blink\<close>) and a blink flag \<open>b\<close>,
  the displayed state is \<open>blink\<close> exactly when \<open>b\<close> holds and \<open>s\<close> is not \<open>talk\<close>, and is
  \<open>s\<close> otherwise; while talking the displayed state is \<open>talk\<close> whatever the blink phase.
\<close>

theorem display_projection:
  assumes "s \<noteq> blink"
  shows "(finalState b s = blink \<longleftrightarrow> b \<and> s \<noteq> talk)
       \<and> (\<not> (b \<and> s \<noteq> talk) \<longrightarrow> finalState b s = s)
       \<and> finalState b talk = talk"
  using assms by (simp add: finalState_def)

theorem display_projection_witness:
  "idle \<noteq> blink \<and> finalState True idle = blink \<and> finalState False idle = idle
   \<and> finalState True talk = talk"
  using display_projection [of idle True] display_projection [of idle False]
  by simp

subsection \<open>Rounding to a double\<close>

lemma bits_pos: "0 < n \<Longrightarrow> 0 < bits n"
  by (subst bits.simps) simp

lemma bits_bounds: "0 < n \<Longrightarrow> 2 ^ (bits n - 1) \<le> n \<and> n < 2 ^ bits n"
proof (induction n rule: bits.induct)
  case (1 n)
  show ?case
  proof (cases "n div 2 = 0")
    case True
    then have "n = 1" using "1.prems" by (simp add: div_eq_0_iff) 
    then show ?thesis by (simp add: bits.simps [of "Suc 0"] bits.simps [of 0])
  next
    case False
    then have ih: "2 ^ (bits (n div 2) - 1) \<le> n div 2 \<and> n div 2 < 2 ^ bits (n div 2)"
      using "1.IH" "1.prems" by simp
    have b: "bits n = Suc (bits (n div 2))"
      using "1.prems" by (subst bits.simps) simp
    have p: "0 < bits (n div 2)" using False by (simp add: bits_pos)
    then have e: "2 ^ bits (n div 2) = 2 * (2::nat) ^ (bits (n div 2) - 1)"
      by (cases "bits (n div 2)") simp_all
    have "2 * 2 ^ (bits (n div 2) - 1) \<le> n" using ih by linarith
    moreover have "n < 2 * 2 ^ bits (n div 2)" using ih by linarith
    ultimately show ?thesis using b e by simp
  qed
qed

lemma pow2_power_int: "pow2 e = power_int 2 e"
  by (simp add: pow2_def power_int_def field_simps)

lemma pow2_pos: "0 < pow2 e"
  by (simp add: pow2_def)

lemma pow2_add: "pow2 (a + b) = pow2 a * pow2 b"
  by (simp add: pow2_power_int power_int_add)

lemma pow2_nat: "pow2 (int n) = 2 ^ n"
  by (simp add: pow2_def)

lemma pow2_neg_nat: "pow2 (- int n) = 1 / 2 ^ n"
  by (simp add: pow2_power_int power_int_minus field_simps)

lemma exponent_bounds:
  assumes "0 < x"
  shows "pow2 (exponent x) \<le> x" and "x < pow2 (exponent x + 1)"
proof -
  have "pow2 (exponent x) \<le> x \<and> x < pow2 (exponent x + 1)"
  proof (cases "1 \<le> x")
    case True
    define n where "n = nat \<lfloor>x\<rfloor>"
    have f: "0 < \<lfloor>x\<rfloor>" using True by simp
    then have r: "real n = of_int \<lfloor>x\<rfloor>" by (simp add: n_def)
    have n: "0 < n" "real n \<le> x" "x < real n + 1"
      using f by (simp add: n_def, simp add: r, simp add: r)
    have e: "exponent x = int (bits n) - 1"
      using True by (simp add: exponent_def n_def)
    have bp: "0 < bits n" using n(1) by (rule bits_pos)
    then have e1: "exponent x = int (bits n - 1)" using e by simp
    have e2: "exponent x + 1 = int (bits n)" using e by simp
    from bits_bounds [OF n(1)] have a: "2 ^ (bits n - 1) \<le> n" and b: "Suc n \<le> 2 ^ bits n"
      by simp_all
    have "real (2 ^ (bits n - 1)) \<le> real n" using a by (simp only: of_nat_le_iff)
    then have A: "(2::real) ^ (bits n - 1) \<le> real n" by simp
    have "real (Suc n) \<le> real (2 ^ bits n)" using b by (simp only: of_nat_le_iff)
    then have B: "real n + 1 \<le> 2 ^ bits n" by simp
    have P1: "pow2 (exponent x) = 2 ^ (bits n - 1)" by (simp only: e1 pow2_nat)
    have P2: "pow2 (exponent x + 1) = 2 ^ bits n" by (simp only: e2 pow2_nat)
    show ?thesis unfolding P1 P2 using A B n by linarith
  next
    case False
    define y where "y = 1 / x"
    have y: "1 < y" using False assms by (simp add: y_def)
    define m where "m = nat (\<lceil>y\<rceil> - 1)"
    have c: "2 \<le> \<lceil>y\<rceil>" using y by linarith
    then have r: "real m = of_int \<lceil>y\<rceil> - 1" by (simp add: m_def)
    have m: "0 < m" "real m < y" "y \<le> real m + 1"
      using c by (simp add: m_def, simp add: r, linarith, simp add: r)
    have e: "exponent x = - int (bits m)"
      using False by (simp add: exponent_def m_def y_def)
    have bp: "0 < bits m" using m(1) by (rule bits_pos)
    then have e2: "exponent x + 1 = - int (bits m - 1)" using e by simp
    from bits_bounds [OF m(1)] have a: "2 ^ (bits m - 1) \<le> m" and b: "Suc m \<le> 2 ^ bits m"
      by simp_all
    have "real (2 ^ (bits m - 1)) \<le> real m" using a by (simp only: of_nat_le_iff)
    then have A: "(2::real) ^ (bits m - 1) \<le> real m" by simp
    have "real (Suc m) \<le> real (2 ^ bits m)" using b by (simp only: of_nat_le_iff)
    then have B: "real m + 1 \<le> 2 ^ bits m" by simp
    have "2 ^ (bits m - 1) < y" "y \<le> 2 ^ bits m" using A B m by linarith+
    then have "1 / 2 ^ bits m \<le> x" "x < 1 / 2 ^ (bits m - 1)"
      using assms by (simp_all add: y_def field_simps)
    have X: "1 / 2 ^ bits m \<le> x" "x < 1 / 2 ^ (bits m - 1)" by fact+
    have P1: "pow2 (exponent x) = 1 / 2 ^ bits m" by (simp only: e pow2_neg_nat)
    have P2: "pow2 (exponent x + 1) = 1 / 2 ^ (bits m - 1)" by (simp only: e2 pow2_neg_nat)
    show ?thesis unfolding P1 P2 using X by simp
  qed
  then show "pow2 (exponent x) \<le> x" and "x < pow2 (exponent x + 1)" by simp_all
qed

lemma round_even_error: "\<bar>of_int (round_even q) - q\<bar> \<le> 1 / 2"
proof -
  have "of_int \<lfloor>q\<rfloor> \<le> q" "q < of_int \<lfloor>q\<rfloor> + 1" by linarith+
  then show ?thesis by (auto simp add: round_even_def Let_def)
qed

lemma round_even_nonneg: "0 \<le> q \<Longrightarrow> 0 \<le> round_even q"
  by (auto simp add: round_even_def Let_def)

lemma round_pos_error:
  assumes "0 < x"
  shows "\<bar>round_pos x - x\<bar> \<le> x / 2 ^ 53"
proof -
  define ulp where "ulp = pow2 (exponent x - 52)"
  have up: "0 < ulp" unfolding ulp_def by (rule pow2_pos)
  have "pow2 (exponent x) = pow2 ((exponent x - 52) + 52)" by simp
  also have "\<dots> = ulp * 2 ^ 52" unfolding ulp_def pow2_add by (simp add: pow2_def)
  finally have "ulp * 2 ^ 52 \<le> x" using exponent_bounds(1) [OF assms] by simp
  then have h: "ulp / 2 \<le> x / 2 ^ 53" by simp
  have "round_pos x - x = (of_int (round_even (x / ulp)) - x / ulp) * ulp"
    using up by (simp add: round_pos_def ulp_def [symmetric] Let_def field_simps)
  then have "\<bar>round_pos x - x\<bar> = \<bar>of_int (round_even (x / ulp)) - x / ulp\<bar> * ulp"
    using up by (simp add: abs_mult)
  also have "\<dots> \<le> (1 / 2) * ulp"
    using up round_even_error [of "x / ulp"] by (intro mult_right_mono) simp_all
  finally show ?thesis using h by simp
qed

lemma double_error: "0 \<le> x \<Longrightarrow> \<bar>double x - x\<bar> \<le> x / 2 ^ 53"
  using round_pos_error [of x] by (cases "x = 0") (simp_all add: double_def)

lemma double_nonneg: "0 \<le> x \<Longrightarrow> 0 \<le> double x"
proof (cases "x = 0")
  case True
  then show ?thesis by (simp add: double_def)
next
  case False
  assume "0 \<le> x"
  then have "0 \<le> x / pow2 (exponent x - 52)" using pow2_pos [of "exponent x - 52"] by simp
  then have "0 \<le> round_even (x / pow2 (exponent x - 52))" by (rule round_even_nonneg)
  then show ?thesis
    using False \<open>0 \<le> x\<close> pow2_pos [of "exponent x - 52"]
    by (simp add: double_def round_pos_def Let_def)
qed

subsection \<open>The matrix renderer\<close>

lemma two_roundings:
  fixes a l a1 v u :: real
  assumes "0 \<le> a" and "0 \<le> l" and "0 \<le> u" and "u \<le> 1"
    and "\<bar>a1 - a\<bar> \<le> a * u" and "\<bar>v - a1 * l\<bar> \<le> a1 * l * u"
  shows "\<bar>v - a * l\<bar> \<le> 3 * u * (a * l)"
proof -
  define E where "E = a * l"
  define p where "p = a1 * l"
  have E0: "0 \<le> E" unfolding E_def using assms(1,2) by simp
  have Eu: "0 \<le> E * u" using E0 assms(3) by simp
  have Euu: "E * u * u \<le> E * u" using Eu assms(4) by (simp add: mult_left_le)
  have Euu0: "0 \<le> E * u * u" using Eu assms(3) by simp
  have "a1 \<le> a + a * u" "a - a * u \<le> a1" using assms(5) by linarith+
  then have "a1 * l \<le> (a + a * u) * l" "(a - a * u) * l \<le> a1 * l"
    using assms(2) by (simp_all add: mult_right_mono)
  then have p1: "p \<le> E + E * u" and p2: "E - E * u \<le> p"
    unfolding p_def E_def by (simp_all add: algebra_simps)
  have v1: "v \<le> p + p * u" and v2: "p - p * u \<le> v"
    using assms(6) unfolding p_def by linarith+
  have "p * u \<le> (E + E * u) * u" using p1 assms(3) by (rule mult_right_mono)
  then have up: "v \<le> E + 2 * (E * u) + E * u * u"
    using v1 p1 by (simp add: algebra_simps)
  have "(E - E * u) * u \<le> p * u" using p2 assms(3) by (rule mult_right_mono)
  then have "p * u \<le> (E + E * u) * u \<Longrightarrow> E - 2 * (E * u) - E * u * u \<le> v"
    using v2 p2 \<open>p * u \<le> (E + E * u) * u\<close> by (simp add: algebra_simps)
  then have lo: "E - 2 * (E * u) - E * u * u \<le> v"
    using \<open>p * u \<le> (E + E * u) * u\<close> by simp
  have "\<bar>v - E\<bar> \<le> 3 * (E * u)" using up lo Euu Euu0 by linarith
  then show ?thesis unfolding E_def by (simp add: algebra_simps)
qed

lemma index_value_close:
  assumes "col < cols" and "cols * n \<le> 2 ^ 50"
  shows "0 \<le> double (double (real col / real cols) * real n)"
    and "\<bar>double (double (real col / real cols) * real n) - real (col * n) / real cols\<bar>
           \<le> 3 / (8 * real cols)"
proof -
  define u :: real where "u = 1 / 2 ^ 53"
  define a where "a = real col / real cols"
  define a1 where "a1 = double a"
  define v where "v = double (a1 * real n)"
  have k: "0 < real cols" using assms(1) by simp
  have u: "0 \<le> u" "u \<le> 1" by (simp_all add: u_def)
  have a0: "0 \<le> a" unfolding a_def by simp
  have a10: "0 \<le> a1" unfolding a1_def using a0 by (rule double_nonneg)
  have p0: "0 \<le> a1 * real n" using a10 by simp
  show v0: "0 \<le> double (double (real col / real cols) * real n)"
    using double_nonneg [OF p0] by (simp add: a1_def a_def)
  have e1: "\<bar>a1 - a\<bar> \<le> a * u"
    using double_error [OF a0] by (simp add: a1_def u_def)
  have e2: "\<bar>v - a1 * real n\<bar> \<le> a1 * real n * u"
    using double_error [OF p0] by (simp add: v_def u_def)
  have close: "\<bar>v - a * real n\<bar> \<le> 3 * u * (a * real n)"
    using a0 _ u e1 e2 by (rule two_roundings) simp
  have E: "a * real n = real (col * n) / real cols"
    by (simp add: a_def)
  have "col * n \<le> cols * n" using assms(1) by simp
  then have "col * n \<le> 2 ^ 50" using assms(2) by linarith
  then have "real (col * n) \<le> real (2 ^ 50)" by (simp only: of_nat_le_iff)
  then have cn: "real (col * n) \<le> 2 ^ 50" by simp
  have "3 * u * (real (col * n) / real cols) = (3 * u * real (col * n)) / real cols"
    by simp
  also have "\<dots> \<le> (3 * u * 2 ^ 50) / real cols"
    using cn k u(1) by (intro divide_right_mono mult_left_mono) simp_all
  also have "\<dots> = 3 / (8 * real cols)"
    by (simp add: u_def)
  finally have "3 * u * (a * real n) \<le> 3 / (8 * real cols)" by (simp only: E)
  then have "\<bar>v - real (col * n) / real cols\<bar> \<le> 3 / (8 * real cols)"
    using close by (simp only: E)
  then show "\<bar>double (double (real col / real cols) * real n) - real (col * n) / real cols\<bar>
           \<le> 3 / (8 * real cols)"
    by (simp only: v_def a1_def a_def)
qed

lemma levelIndex_near:
  assumes "col < cols" and "cols * length lvls \<le> 2 ^ 50"
  shows "levelIndex cols col lvls \<le> (col * length lvls) div cols"
    and "(col * length lvls) div cols \<le> levelIndex cols col lvls + 1"
    and "\<not> cols dvd col * length lvls \<Longrightarrow>
           levelIndex cols col lvls = (col * length lvls) div cols"
proof -
  define n where "n = length lvls"
  define v where "v = double (double (real col / real cols) * real n)"
  define N where "N = (col * n) div cols"
  define r where "r = (col * n) mod cols"
  have k: "0 < real cols" "1 \<le> real cols" using assms(1) by simp_all
  note c = index_value_close [OF assms(1), of n, folded v_def, OF assms(2) [folded n_def]]
  have d: "3 / (8 * real cols) \<le> 3 / 8" "3 / (8 * real cols) < 1 / real cols"
    using k by (simp_all add: field_simps)
  have "col * n = N * cols + r" by (simp add: N_def r_def)
  then have "real (col * n) = real N * real cols + real r"
    by (metis of_nat_add of_nat_mult)
  then have E: "real (col * n) / real cols = real N + real r / real cols"
    using k by (simp add: field_simps)
  have rlt: "r < cols" unfolding r_def using assms(1) by simp
  then have "Suc r \<le> cols" by simp
  then have "real (Suc r) \<le> real cols" by (simp only: of_nat_le_iff)
  then have "real r / real cols \<le> 1 - 1 / real cols"
    using k by (simp add: field_simps)
  then have rk: "real r / real cols + 3 / (8 * real cols) < 1"
    using d(2) by linarith
  have up: "v < real N + 1" using c(2) E rk by linarith
  have "v < of_int (int N + 1)" using up by simp
  then have "\<lfloor>v\<rfloor> < int N + 1" by (simp only: floor_less_iff)
  then have i1: "nat \<lfloor>v\<rfloor> \<le> N" by linarith
  have "0 \<le> real r / real cols" by simp
  then have "real N - 1 < v" using c(2) E d(1) by linarith
  then have "of_int (int N - 1) \<le> v" by simp
  then have "int N - 1 \<le> \<lfloor>v\<rfloor>" by (simp only: le_floor_iff)
  then have i2: "N \<le> nat \<lfloor>v\<rfloor> + 1" by linarith
  have i3: "nat \<lfloor>v\<rfloor> = N" if "\<not> cols dvd col * n"
  proof -
    from that have "r \<noteq> 0" by (auto simp add: r_def dvd_eq_mod_eq_0)
    then have "1 \<le> real r" by simp
    then have "1 / real cols \<le> real r / real cols"
      using k by (simp add: divide_right_mono)
    then have "real N \<le> v" using c(2) E d(2) by linarith
    then have "of_int (int N) \<le> v" by simp
    then have "int N \<le> \<lfloor>v\<rfloor>" by (simp only: le_floor_iff)
    then show ?thesis using i1 by linarith
  qed
  show "levelIndex cols col lvls \<le> (col * length lvls) div cols"
    using i1 by (simp add: levelIndex_def v_def N_def n_def)
  show "(col * length lvls) div cols \<le> levelIndex cols col lvls + 1"
    using i2 by (simp add: levelIndex_def v_def N_def n_def)
  show "levelIndex cols col lvls = (col * length lvls) div cols"
    if "\<not> cols dvd col * length lvls"
    using i3 that by (simp add: levelIndex_def v_def N_def n_def)
qed

lemma levelIndex_in_range:
  assumes "col < cols" and "cols * length lvls \<le> 2 ^ 50" and "lvls \<noteq> []"
  shows "levelIndex cols col lvls < length lvls"
proof -
  have "col * length lvls < cols * length lvls"
    using assms(1,3) by simp
  then have "(col * length lvls) div cols < length lvls"
    using assms(1) by (simp add: less_mult_imp_div_less mult.commute)
  then show ?thesis using levelIndex_near(1) [OF assms(1,2)] by linarith
qed

lemma getCellColor_eq:
  "getCellColor rows cols mode lvls palette row col
     = (if mode = vu \<and> lvls \<noteq> []
           \<and> double ((real rows - 1 - real row) / real rows)
               < or_zero (js_index lvls (levelIndex cols col lvls))
        then on_color palette else off_color palette)"
  by (simp add: getCellColor_def Let_def)

lemma threshold_nonneg:
  assumes "row < rows"
  shows "0 \<le> double ((real rows - 1 - real row) / real rows)"
proof -
  have "0 \<le> (real rows - 1 - real row) / real rows" using assms by simp
  then show ?thesis by (rule double_nonneg)
qed

text \<open>
  C9 (as the code has it).  The renderer is total over every \<^verbatim>\<open>levels\<close> array: the grid
  has \<open>rows * cols\<close> cells, and the cell of \<open>row\<close> and \<open>col\<close> is on exactly when the mode is
  \<open>vu\<close>, the array is not empty and the level read, 0 for an undefined entry, is above the
  double \<open>(rows - 1 - row) / rows\<close>; so an empty array or an undefined entry renders the
  cell off.  Column \<open>col\<close> reads the index \<^verbatim>\<open>Math.floor((col / cols) * levels.length)\<close> as
  doubles compute it: that is \<open>(col * length levels) div cols\<close> whenever \<open>cols\<close> does not
  divide \<open>col * length levels\<close>, and that or one less when it does; it lies inside a
  non-empty array.  The bound on \<open>cols * length levels\<close> keeps the rounding errors small,
  and \<open>rows\<close> is an integer a double holds.
\<close>

theorem matrix_total:
  assumes "row < rows" and "col < cols" and "cols * length lvls \<le> 2 ^ 50"
    and "rows < 2 ^ 53"
  shows "length (matrix_cells rows cols mode lvls palette) = rows * cols
       \<and> matrix_cells rows cols mode lvls palette ! (row * cols + col)
           = getCellColor rows cols mode lvls palette row col
       \<and> getCellColor rows cols mode lvls palette row col
           = (if mode = vu \<and> lvls \<noteq> []
                 \<and> double ((real rows - 1 - real row) / real rows)
                     < or_zero (js_index lvls (levelIndex cols col lvls))
              then on_color palette else off_color palette)
       \<and> levelIndex cols col lvls \<le> (col * length lvls) div cols
       \<and> (col * length lvls) div cols \<le> levelIndex cols col lvls + 1
       \<and> (\<not> cols dvd col * length lvls \<longrightarrow>
            levelIndex cols col lvls = (col * length lvls) div cols)
       \<and> (lvls \<noteq> [] \<longrightarrow> levelIndex cols col lvls < length lvls)
       \<and> (lvls = [] \<or> js_index lvls (levelIndex cols col lvls) = None
            \<longrightarrow> getCellColor rows cols mode lvls palette row col = off_color palette)"
proof -
  have idx: "row * cols + col < rows * cols"
  proof -
    have "row * cols + col < row * cols + cols" using assms(2) by simp
    also have "\<dots> = Suc row * cols" by simp
    also have "\<dots> \<le> rows * cols" using assms(1) by (intro mult_le_mono1) simp
    finally show ?thesis .
  qed
  have len: "length (matrix_cells rows cols mode lvls palette) = rows * cols"
    by (simp add: matrix_cells_def)
  have cell: "matrix_cells rows cols mode lvls palette ! (row * cols + col)
           = getCellColor rows cols mode lvls palette row col"
    using idx assms(2) by (simp add: matrix_cells_def)
  have off: "getCellColor rows cols mode lvls palette row col = off_color palette"
    if "lvls = [] \<or> js_index lvls (levelIndex cols col lvls) = None"
  proof -
    from that have "lvls = [] \<or> or_zero (js_index lvls (levelIndex cols col lvls)) = 0"
      by (auto simp add: or_zero_def)
    then show ?thesis
      using threshold_nonneg [OF assms(1)] by (auto simp add: getCellColor_eq)
  qed
  show ?thesis
    using len cell off getCellColor_eq [of rows cols mode lvls palette row col]
      levelIndex_near [OF assms(2,3)] levelIndex_in_range [OF assms(2,3)]
    by blast
qed

theorem matrix_total_witness:
  "matrix_cells 2 2 vu [Some 1, None] \<lparr>on_color = ''#FFD700'', off_color = ''#222''\<rparr>
     = [''#FFD700'', ''#222'', ''#FFD700'', ''#222'']
   \<and> levelIndex 2 1 [Some 1, None] = 1
   \<and> js_index [Some (1::real), None] 1 = None
   \<and> getCellColor 2 2 vu [Some 1, None] \<lparr>on_color = ''#FFD700'', off_color = ''#222''\<rparr> 1 1
       = ''#222''
   \<and> getCellColor 2 2 vu [Some 1, None] \<lparr>on_color = ''#FFD700'', off_color = ''#222''\<rparr> 0 0
       = ''#FFD700''"
proof -
  let ?p = "\<lparr>on_color = ''#FFD700'', off_color = ''#222''\<rparr>"
  let ?l = "[Some (1::real), None]"
  have i: "levelIndex 2 0 ?l = 0" "levelIndex 2 1 ?l = 1"
    by code_simp+
  have t: "double ((real 2 - 1 - real 0) / real 2) = 1 / 2"
    "double ((real 2 - 1 - real 1) / real 2) = 0"
    by code_simp+
  have j: "js_index ?l 0 = Some 1" "js_index ?l 1 = None"
    by (simp_all add: js_index_def)
  have b: "(2::nat) * length ?l \<le> 2 ^ 50" by simp
  have r: "(2::nat) < 2 ^ 53" by simp
  have p: "(0::nat) < 2" "(1::nat) < 2" by simp_all
  note T = matrix_total [where mode = vu and palette = ?p and lvls = ?l]
  have c00: "getCellColor 2 2 vu ?l ?p 0 0 = ''#FFD700''"
    using T [OF p(1) p(1) b r] i t j by (simp add: or_zero_def)
  have c01: "getCellColor 2 2 vu ?l ?p 0 1 = ''#222''"
    using T [OF p(1) p(2) b r] i t j by (simp add: or_zero_def)
  have c10: "getCellColor 2 2 vu ?l ?p 1 0 = ''#FFD700''"
    using T [OF p(2) p(1) b r] i t j by (simp add: or_zero_def)
  have c11: "getCellColor 2 2 vu ?l ?p 1 1 = ''#222''"
    using T [OF p(2) p(2) b r] i t j by (simp add: or_zero_def)
  have "matrix_cells 2 2 vu ?l ?p
          = [getCellColor 2 2 vu ?l ?p 0 0, getCellColor 2 2 vu ?l ?p 0 1,
             getCellColor 2 2 vu ?l ?p 1 0, getCellColor 2 2 vu ?l ?p 1 1]"
    by (simp add: matrix_cells_def upt_rec)
  then show ?thesis
    using c00 c01 c10 c11 i j by simp
qed

text \<open>
  The index read is not always \<open>(col * length levels) div cols\<close>.  With 49 columns and 49
  levels, column 1 reads index 0, since \<^verbatim>\<open>(1 / 49) * 49\<close> is 0.9999999999999999 in doubles:
  with the levels 1, 0, 0, ... the cell is lit by level 0 of the array, though the level
  at index 1 is 0.
\<close>

theorem matrix_index_rounded_counterexample:
  "(1 * length (Some (1::real) # replicate 48 (Some 0))) div 49 = 1
   \<and> levelIndex 49 1 (Some 1 # replicate 48 (Some 0)) = 0
   \<and> js_index (Some (1::real) # replicate 48 (Some 0)) 1 = Some 0
   \<and> getCellColor 1 49 vu (Some 1 # replicate 48 (Some 0))
         \<lparr>on_color = ''#FFD700'', off_color = ''#222''\<rparr> 0 1 = ''#FFD700''"
  by code_simp

subsection \<open>The idle wave\<close>

text \<open>
  C8.  The idle synthesizer computes \<open>max 0 (sin ((col + frame * 0.1) * 0.5) * 0.3 + 0.3)\<close>
  for every row, column and frame, the same in every row; at frame 0 and column 0 the value
  is 0.3 in every row; and equal frames give equal matrices.
\<close>

theorem idle_wave_formula:
  assumes "row < rows" and "col < cols"
  shows "generateIdleWave frame rows cols ! row ! col
           = max 0 (sin ((real col + real frame * 0.1) * 0.5) * 0.3 + 0.3)
       \<and> generateIdleWave 0 rows cols ! row ! 0 = 0.3
       \<and> (frame' = frame \<longrightarrow> generateIdleWave frame' rows cols = generateIdleWave frame rows cols)"
  using assms by (simp add: generateIdleWave_def idle_cell_def)

theorem idle_wave_formula_witness:
  "generateIdleWave 0 7 12 ! 6 ! 0 = 0.3 \<and> generateIdleWave 0 7 12 ! 0 ! 0 = 0.3"
  using idle_wave_formula [of 6 7 0 12 0 0] idle_wave_formula [of 0 7 0 12 0 0]
  by simp

subsection \<open>The frame counter\<close>

declare face_advance.simps [simp del]

lemma face_advance_no_interval:
  "interval f = None \<Longrightarrow> animationFrame (face_advance t f) = animationFrame f"
  by (simp add: face_advance.simps)

lemma face_advance_ticks:
  "interval f = Some due \<Longrightarrow>
   animationFrame (face_advance t f)
     = animationFrame f + (if due \<le> t then (t - due) div 50 + 1 else 0)"
proof (induction t f arbitrary: due rule: face_advance.induct)
  case (1 t f)
  show ?case
  proof (cases "due \<le> t")
    case False
    then show ?thesis using "1.prems" by (simp add: face_advance.simps)
  next
    case True
    let ?g = "f\<lparr>animationFrame := animationFrame f + 1, interval := Some (due + 50),
                face_clock := max (face_clock f) due\<rparr>"
    have step: "face_advance t f = face_advance t ?g"
      using True "1.prems" by (subst face_advance.simps) simp
    have ih: "animationFrame (face_advance t ?g)
        = animationFrame ?g + (if due + 50 \<le> t then (t - (due + 50)) div 50 + 1 else 0)"
      using "1.IH" [OF "1.prems" True, of "due + 50"] by simp
    have "(if due + 50 \<le> t then (t - (due + 50)) div 50 + 1 else 0) = (t - due) div 50"
      using True by (auto simp: le_div_geq div_eq_0_iff) 
    then show ?thesis using True step ih by simp
  qed
qed

text \<open>
  C2 (as the code has it).  While the displayed state is one of idle, wake, thinking and
  sleep the counter advances once every 50 ms (20 Hz): \<open>d\<close> ms after the state was entered
  it has grown by \<open>d div 50\<close>.  A transition of the displayed state into any other state
  (listening, talk, blink) sets the counter to 0, and it stays 0 while that state lasts.
\<close>

theorem frame_counter:
  "(animated st \<longrightarrow>
      animationFrame (face_advance (face_clock f + d) (face_effect st f))
        = animationFrame f + d div 50)
   \<and> (\<not> animated st \<longrightarrow>
        animationFrame (face_effect st f) = 0
        \<and> animationFrame (face_advance t (face_effect st f)) = 0)"
proof (intro conjI impI)
  assume a: "animated st"
  then have i: "interval (face_effect st f) = Some (face_clock f + 50)"
    by (simp add: face_effect_def)
  have "(if face_clock f + 50 \<le> face_clock f + d
         then (face_clock f + d - (face_clock f + 50)) div 50 + 1 else 0) = d div 50"
    by (auto simp: le_div_geq div_eq_0_iff)
  then show "animationFrame (face_advance (face_clock f + d) (face_effect st f))
        = animationFrame f + d div 50"
    using face_advance_ticks [OF i, of "face_clock f + d"] a by (simp add: face_effect_def)
next
  assume "\<not> animated st"
  then show "animationFrame (face_effect st f) = 0"
    by (simp add: face_effect_def)
next
  assume n: "\<not> animated st"
  then have "interval (face_effect st f) = None" by (simp add: face_effect_def)
  then show "animationFrame (face_advance t (face_effect st f)) = 0"
    using n by (simp add: face_advance_no_interval face_effect_def)
qed

theorem frame_counter_witness:
  "animated idle \<and> \<not> animated talk
   \<and> animationFrame (face_advance (0 + 1000)
        (face_effect idle \<lparr>animationFrame = 7, interval = None, face_clock = 0\<rparr>)) = 27
   \<and> animationFrame (face_effect talk \<lparr>animationFrame = 7, interval = Some 30, face_clock = 0\<rparr>) = 0"
  using frame_counter [of idle "\<lparr>animationFrame = 7, interval = None, face_clock = 0\<rparr>" 1000]
        frame_counter [of talk "\<lparr>animationFrame = 7, interval = Some 30, face_clock = 0\<rparr>"]
  by (simp add: animated_def)

text \<open>
  The counter is not frozen: entering \<open>talk\<close> with the counter at 7 leaves it at 0.
\<close>

theorem frame_not_frozen_counterexample:
  "animationFrame \<lparr>animationFrame = 7, interval = Some 30, face_clock = 0\<rparr> = 7
   \<and> animationFrame (face_effect talk \<lparr>animationFrame = 7, interval = Some 30, face_clock = 0\<rparr>) = 0
   \<and> animationFrame (face_effect listening \<lparr>animationFrame = 7, interval = Some 30, face_clock = 0\<rparr>) = 0
   \<and> animationFrame (face_effect blink \<lparr>animationFrame = 7, interval = Some 30, face_clock = 0\<rparr>) = 0"
  by (simp add: face_effect_def animated_def)

section \<open>The state machine hook (useMiniMeState.ts)\<close>

text \<open>
  A timeout is the time it is due and the number \<^verbatim>\<open>setTimeout\<close> gave it; timeouts due at
  the same time run in the order they were created.
\<close>

type_synonym timer = "nat \<times> nat"

text \<open>
  What the hook holds between renders: the \<^verbatim>\<open>config\<close> state, the arguments of the last
  render, the timeout of the wake effect, the two timeout refs, and the values of
  \<^verbatim>\<open>config.state\<close> and \<^verbatim>\<open>config.wakeStartTime\<close> the effects last ran with (React
  re-runs an effect when a value of its dependency list differs from the last run).
  A timeout field is \<open>Some\<close> while the timeout is pending and \<open>None\<close> once it was cleared or
  has run: the source tests a ref only to guard \<^verbatim>\<open>clearTimeout\<close>, which does nothing for
  a timeout that has run.
\<close>

record Hook =
  config :: MiniMeStateConfig
  arg_micLevel :: real
  arg_isBlinking :: bool
  wakeTimeout :: "timer option"
  idleTimeoutRef :: "timer option"
  sleepTimeoutRef :: "timer option"
  dep_state :: MiniMeState
  dep_wakeStartTime :: "nat option"
  clock :: nat
  nextTimerId :: nat

text \<open>\<^verbatim>\<open>setConfig(prev => ...)\<close>: the updaters of one pass apply in order.\<close>

definition setConfig :: "(MiniMeStateConfig \<Rightarrow> MiniMeStateConfig) \<Rightarrow> Hook \<Rightarrow> Hook" where
  "setConfig u h = h\<lparr>config := u (config h)\<rparr>"

text \<open>\<^verbatim>\<open>setTimeout(f, ms)\<close>: the new timeout, and the hook with the next id advanced.\<close>

definition setTimeout :: "nat \<Rightarrow> Hook \<Rightarrow> timer \<times> Hook" where
  "setTimeout ms h = ((clock h + ms, nextTimerId h), h\<lparr>nextTimerId := Suc (nextTimerId h)\<rparr>)"

text \<open>The effect on \<^verbatim>\<open>[micLevel]\<close>.\<close>

definition mic_effect :: "Hook \<Rightarrow> Hook" where
  "mic_effect h = setConfig (\<lambda>prev. prev\<lparr>micLevel := arg_micLevel h\<rparr>) h"

text \<open>
  The effect on \<^verbatim>\<open>[backendEvent]\<close>, lines 44 to 93; \<^verbatim>\<open>backendEvent.levels || []\<close> is the
  array when there is one.  An unknown kind changes nothing.
\<close>

definition backend_effect :: "BackendEvent \<Rightarrow> Hook \<Rightarrow> Hook" where
  "backend_effect backendEvent h =
     (let now = clock h in
      if event backendEvent = ''wake'' then
        setConfig (\<lambda>prev. prev\<lparr>state := wake, levels := [], lastBackendEvent := now,
                               wakeStartTime := Some now\<rparr>) h
      else if event backendEvent = ''thinking'' then
        setConfig (\<lambda>prev. prev\<lparr>state := thinking, levels := [], lastBackendEvent := now\<rparr>) h
      else if event backendEvent = ''talk'' then
        setConfig (\<lambda>prev. prev\<lparr>state := talk,
                               levels := (case event_levels backendEvent of
                                            None \<Rightarrow> [] | Some l \<Rightarrow> l),
                               lastBackendEvent := now\<rparr>) h
      else if event backendEvent = ''idle'' then
        setConfig (\<lambda>prev. prev\<lparr>state := idle, levels := [], lastBackendEvent := now\<rparr>) h
      else if event backendEvent = ''sleep'' then
        setConfig (\<lambda>prev. prev\<lparr>state := sleep, levels := [], lastBackendEvent := now\<rparr>) h
      else if event backendEvent = ''listening'' then
        setConfig (\<lambda>prev. prev\<lparr>state := listening, levels := [], lastBackendEvent := now\<rparr>) h
      else h)"

text \<open>
  The effect on \<^verbatim>\<open>[config.state, config.wakeStartTime]\<close>, lines 95 to 107.  \<open>c\<close> is the
  \<^verbatim>\<open>config\<close> of the render the effect belongs to.  The cleanup of the previous run clears
  its timeout.  \<^verbatim>\<open>config.wakeStartTime\<close> is tested for truth: \<^verbatim>\<open>null\<close> and 0 fail.
\<close>

definition truthy :: "nat option \<Rightarrow> bool" where
  "truthy x = (case x of None \<Rightarrow> False | Some n \<Rightarrow> n \<noteq> 0)"

definition wake_callback :: "Hook \<Rightarrow> Hook" where
  "wake_callback h = setConfig (\<lambda>prev. prev\<lparr>state := idle, wakeStartTime := None\<rparr>) h"

definition wake_effect :: "MiniMeStateConfig \<Rightarrow> Hook \<Rightarrow> Hook" where
  "wake_effect c h =
     (let h1 = h\<lparr>wakeTimeout := None\<rparr>
      in if state c = wake \<and> truthy (wakeStartTime c)
         then (let (timeout, h2) = setTimeout 500 h1 in h2\<lparr>wakeTimeout := Some timeout\<rparr>)
         else h1)"

text \<open>The effect on \<^verbatim>\<open>[micLevel, config.state]\<close>, lines 109 to 147.\<close>

definition idle_callback :: "Hook \<Rightarrow> Hook" where
  "idle_callback h = setConfig (\<lambda>prev. prev\<lparr>state := idle, levels := []\<rparr>) h"

definition listening_effect :: "MiniMeStateConfig \<Rightarrow> Hook \<Rightarrow> Hook" where
  "listening_effect c h =
     (if state c = talk \<or> state c = wake \<or> state c = thinking \<or> state c = sleep then h
      else if arg_micLevel h > 0.1 then
        setConfig (\<lambda>prev. prev\<lparr>state := listening, levels := replicate 12 (arg_micLevel h)\<rparr>)
          (h\<lparr>idleTimeoutRef := None\<rparr>)
      else if state c = listening \<and> arg_micLevel h < 0.03 then
        (let (timeout, h2) = setTimeout 3000 (h\<lparr>idleTimeoutRef := None\<rparr>)
         in h2\<lparr>idleTimeoutRef := Some timeout\<rparr>)
      else if state c = listening then
        setConfig (\<lambda>prev. prev\<lparr>levels := replicate 12 (arg_micLevel h)\<rparr>) h
      else h)"

text \<open>The effect on \<^verbatim>\<open>[config.state, micLevel]\<close>, lines 149 to 167.\<close>

definition sleep_callback :: "Hook \<Rightarrow> Hook" where
  "sleep_callback h = setConfig (\<lambda>prev. prev\<lparr>state := sleep, levels := []\<rparr>) h"

definition sleep_effect :: "MiniMeStateConfig \<Rightarrow> Hook \<Rightarrow> Hook" where
  "sleep_effect c h =
     (if state c = idle \<and> arg_micLevel h < 0.03 then
        (let (timeout, h2) = setTimeout 10000 (h\<lparr>sleepTimeoutRef := None\<rparr>)
         in h2\<lparr>sleepTimeoutRef := Some timeout\<rparr>)
      else h\<lparr>sleepTimeoutRef := None\<rparr>)"

text \<open>
  One pass of the effects after a render, in the order the hook declares them.  An effect
  runs when one of its dependencies differs from its last run: \<open>micChanged\<close> says the
  \<^verbatim>\<open>micLevel\<close> argument is new, \<open>backendEvent\<close> is the new event if there is one, and the
  two \<^verbatim>\<open>config\<close> dependencies are compared with the values of the last pass.  Every effect
  of the pass reads the \<^verbatim>\<open>config\<close> of its render, \<open>c\<close>; the updaters it queues act on the
  pending \<^verbatim>\<open>config\<close>.
\<close>

definition run_effects :: "bool \<Rightarrow> BackendEvent option \<Rightarrow> Hook \<Rightarrow> Hook" where
  "run_effects micChanged backendEvent h =
     (let c = config h;
          stateChanged = (state c \<noteq> dep_state h);
          wakeStartChanged = (wakeStartTime c \<noteq> dep_wakeStartTime h);
          h0 = h\<lparr>dep_state := state c, dep_wakeStartTime := wakeStartTime c\<rparr>;
          h1 = (if micChanged then mic_effect h0 else h0);
          h2 = (case backendEvent of None \<Rightarrow> h1 | Some e \<Rightarrow> backend_effect e h1);
          h3 = (if stateChanged \<or> wakeStartChanged then wake_effect c h2 else h2);
          h4 = (if micChanged \<or> stateChanged then listening_effect c h3 else h3);
          h5 = (if stateChanged \<or> micChanged then sleep_effect c h4 else h4)
      in h5)"

subsection \<open>What each effect touches\<close>

lemma setConfig_fields [simp]:
  "config (setConfig u h) = u (config h)"
  "arg_micLevel (setConfig u h) = arg_micLevel h"
  "arg_isBlinking (setConfig u h) = arg_isBlinking h"
  "wakeTimeout (setConfig u h) = wakeTimeout h"
  "idleTimeoutRef (setConfig u h) = idleTimeoutRef h"
  "sleepTimeoutRef (setConfig u h) = sleepTimeoutRef h"
  "dep_state (setConfig u h) = dep_state h"
  "dep_wakeStartTime (setConfig u h) = dep_wakeStartTime h"
  "clock (setConfig u h) = clock h"
  "nextTimerId (setConfig u h) = nextTimerId h"
  by (simp_all add: setConfig_def)

lemma mic_effect_fields [simp]:
  "state (config (mic_effect h)) = state (config h)"
  "levels (config (mic_effect h)) = levels (config h)"
  "wakeStartTime (config (mic_effect h)) = wakeStartTime (config h)"
  "arg_micLevel (mic_effect h) = arg_micLevel h"
  "arg_isBlinking (mic_effect h) = arg_isBlinking h"
  "wakeTimeout (mic_effect h) = wakeTimeout h"
  "idleTimeoutRef (mic_effect h) = idleTimeoutRef h"
  "sleepTimeoutRef (mic_effect h) = sleepTimeoutRef h"
  "dep_state (mic_effect h) = dep_state h"
  "dep_wakeStartTime (mic_effect h) = dep_wakeStartTime h"
  "clock (mic_effect h) = clock h"
  "nextTimerId (mic_effect h) = nextTimerId h"
  by (simp_all add: mic_effect_def)

lemma backend_effect_fields [simp]:
  "arg_micLevel (backend_effect e h) = arg_micLevel h"
  "arg_isBlinking (backend_effect e h) = arg_isBlinking h"
  "wakeTimeout (backend_effect e h) = wakeTimeout h"
  "idleTimeoutRef (backend_effect e h) = idleTimeoutRef h"
  "sleepTimeoutRef (backend_effect e h) = sleepTimeoutRef h"
  "dep_state (backend_effect e h) = dep_state h"
  "dep_wakeStartTime (backend_effect e h) = dep_wakeStartTime h"
  "clock (backend_effect e h) = clock h"
  "nextTimerId (backend_effect e h) = nextTimerId h"
  by (simp_all add: backend_effect_def Let_def)

lemma wake_effect_fields [simp]:
  "config (wake_effect c h) = config h"
  "arg_micLevel (wake_effect c h) = arg_micLevel h"
  "arg_isBlinking (wake_effect c h) = arg_isBlinking h"
  "idleTimeoutRef (wake_effect c h) = idleTimeoutRef h"
  "sleepTimeoutRef (wake_effect c h) = sleepTimeoutRef h"
  "dep_state (wake_effect c h) = dep_state h"
  "dep_wakeStartTime (wake_effect c h) = dep_wakeStartTime h"
  "clock (wake_effect c h) = clock h"
  by (simp_all add: wake_effect_def setTimeout_def Let_def)

lemma wake_effect_timeout:
  "wakeTimeout (wake_effect c h)
     = (if state c = wake \<and> truthy (wakeStartTime c)
        then Some (clock h + 500, nextTimerId h) else None)"
  by (simp add: wake_effect_def setTimeout_def Let_def)

lemma listening_effect_fields [simp]:
  "arg_micLevel (listening_effect c h) = arg_micLevel h"
  "arg_isBlinking (listening_effect c h) = arg_isBlinking h"
  "wakeTimeout (listening_effect c h) = wakeTimeout h"
  "sleepTimeoutRef (listening_effect c h) = sleepTimeoutRef h"
  "dep_state (listening_effect c h) = dep_state h"
  "dep_wakeStartTime (listening_effect c h) = dep_wakeStartTime h"
  "clock (listening_effect c h) = clock h"
  "wakeStartTime (config (listening_effect c h)) = wakeStartTime (config h)"
  by (simp_all add: listening_effect_def setTimeout_def Let_def)

definition mic_blocked :: "MiniMeState \<Rightarrow> bool" where
  "mic_blocked s = (s = talk \<or> s = wake \<or> s = thinking \<or> s = sleep)"

lemma listening_effect_state:
  "state (config (listening_effect c h))
     = (if \<not> mic_blocked (state c) \<and> arg_micLevel h > 0.1 then listening
        else state (config h))"
  by (simp add: listening_effect_def setTimeout_def mic_blocked_def Let_def)

lemma listening_effect_levels:
  "levels (config (listening_effect c h))
     = (if \<not> mic_blocked (state c) \<and> arg_micLevel h > 0.1 then replicate 12 (arg_micLevel h)
        else if state c = listening \<and> \<not> arg_micLevel h < 0.03
        then replicate 12 (arg_micLevel h)
        else levels (config h))"
  by (simp add: listening_effect_def setTimeout_def mic_blocked_def Let_def)

lemma listening_effect_timeout:
  "idleTimeoutRef (listening_effect c h)
     = (if mic_blocked (state c) then idleTimeoutRef h
        else if arg_micLevel h > 0.1 then None
        else if state c = listening \<and> arg_micLevel h < 0.03
        then Some (clock h + 3000, nextTimerId h)
        else idleTimeoutRef h)"
  by (simp add: listening_effect_def setTimeout_def mic_blocked_def Let_def)

lemma sleep_effect_fields [simp]:
  "config (sleep_effect c h) = config h"
  "arg_micLevel (sleep_effect c h) = arg_micLevel h"
  "arg_isBlinking (sleep_effect c h) = arg_isBlinking h"
  "wakeTimeout (sleep_effect c h) = wakeTimeout h"
  "idleTimeoutRef (sleep_effect c h) = idleTimeoutRef h"
  "dep_state (sleep_effect c h) = dep_state h"
  "dep_wakeStartTime (sleep_effect c h) = dep_wakeStartTime h"
  "clock (sleep_effect c h) = clock h"
  by (simp_all add: sleep_effect_def setTimeout_def Let_def)

lemma sleep_effect_timeout:
  "sleepTimeoutRef (sleep_effect c h)
     = (if state c = idle \<and> arg_micLevel h < 0.03
        then Some (clock h + 10000, nextTimerId h) else None)"
  by (simp add: sleep_effect_def setTimeout_def Let_def)

subsection \<open>A pass after a re-render\<close>

lemma rerender_fields [simp]:
  "arg_micLevel (run_effects False None h) = arg_micLevel h"
  "arg_isBlinking (run_effects False None h) = arg_isBlinking h"
  "clock (run_effects False None h) = clock h"
  "dep_state (run_effects False None h) = state (config h)"
  "dep_wakeStartTime (run_effects False None h) = wakeStartTime (config h)"
  "wakeStartTime (config (run_effects False None h)) = wakeStartTime (config h)"
  by (simp_all add: run_effects_def Let_def)

lemma rerender_state:
  "state (config (run_effects False None h))
     = (if state (config h) \<noteq> dep_state h \<and> \<not> mic_blocked (state (config h))
           \<and> arg_micLevel h > 0.1
        then listening else state (config h))"
  by (simp add: run_effects_def Let_def listening_effect_state)

text \<open>
  A changed \<^verbatim>\<open>config\<close> renders again, and the effects whose dependencies changed run
  again, until a pass leaves \<^verbatim>\<open>config.state\<close> and \<^verbatim>\<open>config.wakeStartTime\<close> as they were.
\<close>

definition settled :: "Hook \<Rightarrow> bool" where
  "settled h = (state (config h) = dep_state h \<and> wakeStartTime (config h) = dep_wakeStartTime h)"

function settle :: "Hook \<Rightarrow> Hook" where
  "settle h = (if settled h then h else settle (run_effects False None h))"
  by pat_completeness auto
termination
proof (relation "measure (\<lambda>h. if settled h then 0
        else if state (config h) \<noteq> dep_state h \<and> state (config h) \<noteq> listening
                \<and> arg_micLevel h > 0.1 then 2 else 1)")
  show "wf (measure (\<lambda>h. if settled h then 0
        else if state (config h) \<noteq> dep_state h \<and> state (config h) \<noteq> listening
                \<and> arg_micLevel h > 0.1 then 2 else (1::nat)))"
    by simp
next
  fix h assume "\<not> settled h"
  then show "(run_effects False None h, h) \<in> measure (\<lambda>h. if settled h then 0
        else if state (config h) \<noteq> dep_state h \<and> state (config h) \<noteq> listening
                \<and> arg_micLevel h > 0.1 then 2 else 1)"
    by (simp add: settled_def rerender_state)
qed

subsection \<open>Settling needs at most two more passes\<close>

declare settle.simps [simp del]

lemma settle_settled: "settled h \<Longrightarrow> settle h = h"
  by (subst settle.simps) simp

lemma settle_step: "\<not> settled h \<Longrightarrow> settle h = settle (run_effects False None h)"
  by (subst settle.simps) simp

lemma second_pass_settled:
  assumes "\<not> settled (run_effects False None h)"
  shows "settled (run_effects False None (run_effects False None h))"
proof -
  let ?h1 = "run_effects False None h"
  from assms have ne: "state (config ?h1) \<noteq> state (config h)"
    by (simp add: settled_def)
  then have l: "state (config ?h1) = listening"
    by (simp add: rerender_state split: if_splits)
  have "state (config (run_effects False None ?h1)) = listening"
    by (simp add: rerender_state [of ?h1] l)
  then show ?thesis by (simp add: settled_def l)
qed

lemma settle_unroll:
  "settle h =
     (if settled h then h
      else if settled (run_effects False None h) then run_effects False None h
      else run_effects False None (run_effects False None h))"
  by (simp add: settle_settled settle_step second_pass_settled)

lemma unsettled_pass_listening:
  assumes "\<not> settled (run_effects False None h)"
  shows "state (config (run_effects False None h)) = listening"
    and "arg_micLevel h > 0.1" and "state (config h) \<noteq> dep_state h"
    and "state (config h) \<noteq> listening"
proof -
  from assms have ne: "state (config (run_effects False None h)) \<noteq> state (config h)"
    by (simp add: settled_def)
  then show "state (config (run_effects False None h)) = listening"
    by (simp add: rerender_state split: if_splits)
  from ne show "arg_micLevel h > 0.1"
    by (simp add: rerender_state split: if_splits)
  from ne show "state (config h) \<noteq> dep_state h"
    by (simp add: rerender_state split: if_splits)
  from ne show "state (config h) \<noteq> listening"
    by (simp add: rerender_state split: if_splits)
qed

lemma settle_is_settled: "settled (settle h)"
  by (simp add: settle_unroll second_pass_settled)

lemma settle_fields [simp]:
  "arg_micLevel (settle h) = arg_micLevel h"
  "arg_isBlinking (settle h) = arg_isBlinking h"
  "clock (settle h) = clock h"
  "wakeStartTime (config (settle h)) = wakeStartTime (config h)"
  by (simp_all add: settle_unroll)

lemma settle_state:
  "state (config (settle h))
     = (if state (config h) \<noteq> dep_state h \<and> \<not> mic_blocked (state (config h))
           \<and> arg_micLevel h > 0.1
        then listening else state (config h))"
proof (cases "settled h")
  case True
  then show ?thesis by (simp add: settle_settled settled_def)
next
  case False
  show ?thesis
  proof (cases "settled (run_effects False None h)")
    case True
    then show ?thesis using False by (simp add: settle_unroll rerender_state)
  next
    case u: False
    have "state (config (run_effects False None (run_effects False None h))) = listening"
      by (simp add: rerender_state [of "run_effects False None h"] unsettled_pass_listening(1) [OF u])
    moreover have "state (config (run_effects False None h)) = listening"
      by (rule unsettled_pass_listening(1) [OF u])
    ultimately show ?thesis
      using False u by (simp add: settle_unroll rerender_state split: if_splits)
  qed
qed

subsection \<open>The timeouts after a pass\<close>

lemma rerender_wakeTimeout:
  "wakeTimeout (run_effects False None h)
     = (if state (config h) \<noteq> dep_state h \<or> wakeStartTime (config h) \<noteq> dep_wakeStartTime h
        then (if state (config h) = wake \<and> truthy (wakeStartTime (config h))
              then Some (clock h + 500, nextTimerId h) else None)
        else wakeTimeout h)"
  by (simp add: run_effects_def Let_def wake_effect_timeout)

lemma rerender_idleTimeoutRef:
  "idleTimeoutRef (run_effects False None h) \<noteq> None \<Longrightarrow>
     idleTimeoutRef h \<noteq> None \<or> (state (config h) = listening \<and> arg_micLevel h < 0.03)"
  by (simp add: run_effects_def Let_def listening_effect_timeout split: if_splits)

lemma rerender_sleepTimeoutRef:
  "sleepTimeoutRef (run_effects False None h) \<noteq> None \<Longrightarrow>
     (sleepTimeoutRef h \<noteq> None \<and> state (config h) = dep_state h)
     \<or> (state (config h) = idle \<and> arg_micLevel h < 0.03)"
  by (simp add: run_effects_def Let_def sleep_effect_timeout split: if_splits)

lemma settle_wakeTimeout:
  assumes "wakeTimeout (settle h) \<noteq> None"
  shows "wakeTimeout h \<noteq> None \<or> state (config h) = wake"
proof (cases "settled h")
  case True
  then show ?thesis using assms by (simp add: settle_settled)
next
  case False
  show ?thesis
  proof (cases "settled (run_effects False None h)")
    case True
    then show ?thesis using assms False
      by (simp add: settle_unroll rerender_wakeTimeout split: if_splits)
  next
    case u: False
    have "state (config (run_effects False None h)) \<noteq> wake"
      using unsettled_pass_listening(1) [OF u] by simp
    moreover have "state (config (run_effects False None h)) \<noteq> dep_state (run_effects False None h)"
      using u by (simp add: settled_def)
    ultimately have "wakeTimeout (run_effects False None (run_effects False None h)) = None"
      by (simp add: rerender_wakeTimeout [of "run_effects False None h"])
    then show ?thesis using assms False u by (simp add: settle_unroll)
  qed
qed

lemma settle_idleTimeoutRef:
  assumes "idleTimeoutRef (settle h) \<noteq> None"
  shows "idleTimeoutRef h \<noteq> None \<or> (state (config h) = listening \<and> arg_micLevel h < 0.03)"
proof (cases "settled h")
  case True
  then show ?thesis using assms by (simp add: settle_settled)
next
  case False
  show ?thesis
  proof (cases "settled (run_effects False None h)")
    case True
    then show ?thesis using assms False rerender_idleTimeoutRef [of h]
      by (simp add: settle_unroll)
  next
    case u: False
    have "idleTimeoutRef (run_effects False None (run_effects False None h)) \<noteq> None"
      using assms False u by (simp add: settle_unroll)
    from rerender_idleTimeoutRef [OF this] unsettled_pass_listening(2) [OF u]
    have "idleTimeoutRef (run_effects False None h) \<noteq> None" by simp
    from rerender_idleTimeoutRef [OF this] show ?thesis .
  qed
qed

lemma settle_sleepTimeoutRef:
  assumes "sleepTimeoutRef (settle h) \<noteq> None"
  shows "sleepTimeoutRef h \<noteq> None \<or> state (config h) = idle"
proof (cases "settled h")
  case True
  then show ?thesis using assms by (simp add: settle_settled)
next
  case False
  show ?thesis
  proof (cases "settled (run_effects False None h)")
    case True
    then show ?thesis using assms False rerender_sleepTimeoutRef [of h]
      by (auto simp add: settle_unroll)
  next
    case u: False
    have "sleepTimeoutRef (run_effects False None (run_effects False None h)) \<noteq> None"
      using assms False u by (simp add: settle_unroll)
    from rerender_sleepTimeoutRef [OF this] unsettled_pass_listening(1) [OF u] u
    show ?thesis by (simp add: settled_def)
  qed
qed

section \<open>Signals\<close>

text \<open>
  Three things reach the hook: a new \<^verbatim>\<open>micLevel\<close> argument, a new \<^verbatim>\<open>backendEvent\<close>
  argument (App stores each message as a new object) and a new \<^verbatim>\<open>isBlinking\<close> argument.
  An argument equal to the last one runs no effect.  No effect depends on
  \<^verbatim>\<open>isBlinking\<close>.
\<close>

definition on_micLevel :: "real \<Rightarrow> Hook \<Rightarrow> Hook" where
  "on_micLevel a h =
     (if a = arg_micLevel h then h
      else settle (run_effects True None (h\<lparr>arg_micLevel := a\<rparr>)))"

definition on_backendEvent :: "BackendEvent \<Rightarrow> Hook \<Rightarrow> Hook" where
  "on_backendEvent e h = settle (run_effects False (Some e) h)"

definition on_isBlinking :: "bool \<Rightarrow> Hook \<Rightarrow> Hook" where
  "on_isBlinking b h = h\<lparr>arg_isBlinking := b\<rparr>"

text \<open>What the hook returns: \<^verbatim>\<open>{ state: finalState, levels: config.levels }\<close>.\<close>

definition hook_state :: "Hook \<Rightarrow> MiniMeState" where
  "hook_state h = finalState (arg_isBlinking h) (state (config h))"

definition hook_levels :: "Hook \<Rightarrow> real list" where
  "hook_levels h = levels (config h)"

text \<open>
  \<^verbatim>\<open>App\<close> replaces the levels while listening to a loud microphone:
  \<^verbatim>\<open>if (state === 'listening' && micLevel > 0.1) return Array(12).fill(micLevel); return levels;\<close>
\<close>

definition finalLevels :: "MiniMeState \<Rightarrow> real list \<Rightarrow> real \<Rightarrow> real list" where
  "finalLevels st lvls mic = (if st = listening \<and> mic > 0.1 then replicate 12 mic else lvls)"

text \<open>The level vector the face renders for a hook and a frame counter.\<close>

definition emitted_levels :: "Hook \<Rightarrow> nat \<Rightarrow> real list" where
  "emitted_levels h frame =
     animationLevels (hook_state h)
       (finalLevels (hook_state h) (hook_levels h) (arg_micLevel h)) frame"

section \<open>Timeouts running\<close>

datatype TimerName = wakeHold | listeningToIdle | idleToSleep

text \<open>A timeout that runs is no longer pending; its callback queues its updater.\<close>

definition fire :: "TimerName \<Rightarrow> Hook \<Rightarrow> Hook" where
  "fire nm h =
     (case nm of
        wakeHold \<Rightarrow> settle (wake_callback (h\<lparr>wakeTimeout := None\<rparr>))
      | listeningToIdle \<Rightarrow> settle (idle_callback (h\<lparr>idleTimeoutRef := None\<rparr>))
      | idleToSleep \<Rightarrow> settle (sleep_callback (h\<lparr>sleepTimeoutRef := None\<rparr>)))"

definition pending :: "Hook \<Rightarrow> (timer \<times> TimerName) list" where
  "pending h =
     (case wakeTimeout h of None \<Rightarrow> [] | Some t \<Rightarrow> [(t, wakeHold)])
     @ (case idleTimeoutRef h of None \<Rightarrow> [] | Some t \<Rightarrow> [(t, listeningToIdle)])
     @ (case sleepTimeoutRef h of None \<Rightarrow> [] | Some t \<Rightarrow> [(t, idleToSleep)])"

definition timer_le :: "timer \<Rightarrow> timer \<Rightarrow> bool" where
  "timer_le a b = (fst a < fst b \<or> (fst a = fst b \<and> snd a \<le> snd b))"

fun earliest :: "(timer \<times> TimerName) list \<Rightarrow> (timer \<times> TimerName) option" where
  "earliest [] = None"
| "earliest (x # xs) =
     (case earliest xs of
        None \<Rightarrow> Some x
      | Some y \<Rightarrow> if timer_le (fst x) (fst y) then Some x else Some y)"

definition next_timeout :: "Hook \<Rightarrow> (nat \<times> TimerName) option" where
  "next_timeout h = map_option (\<lambda>(t, nm). (fst t, nm)) (earliest (pending h))"

definition timer_weight :: "Hook \<Rightarrow> nat" where
  "timer_weight h =
     (if wakeTimeout h = None then 0 else 2) + (if idleTimeoutRef h = None then 0 else 2)
     + (if sleepTimeoutRef h = None then 0 else 1)"

lemma earliest_mem: "earliest xs = Some x \<Longrightarrow> x \<in> set xs"
  by (induction xs arbitrary: x) (auto split: option.splits if_splits)

lemma next_timeout_pending:
  assumes "next_timeout h = Some (due, nm)"
  shows "(nm = wakeHold \<and> wakeTimeout h \<noteq> None)
       \<or> (nm = listeningToIdle \<and> idleTimeoutRef h \<noteq> None)
       \<or> (nm = idleToSleep \<and> sleepTimeoutRef h \<noteq> None)"
proof -
  from assms obtain t where "earliest (pending h) = Some (t, nm)"
    by (auto simp: next_timeout_def)
  then have "(t, nm) \<in> set (pending h)" by (rule earliest_mem)
  then show ?thesis
    by (cases "wakeTimeout h"; cases "idleTimeoutRef h"; cases "sleepTimeoutRef h")
       (auto simp: pending_def)
qed

lemma fire_wakeHold_weight:
  assumes "wakeTimeout h \<noteq> None"
  shows "timer_weight (fire wakeHold h) < timer_weight h"
proof -
  let ?h' = "wake_callback (h\<lparr>wakeTimeout := None\<rparr>)"
  have s: "state (config ?h') = idle" and w: "wakeTimeout ?h' = None"
    and i: "idleTimeoutRef ?h' = idleTimeoutRef h"
    by (simp_all add: wake_callback_def)
  have "wakeTimeout (settle ?h') = None"
    using settle_wakeTimeout [of ?h'] s w by (auto simp del: not_None_eq)
  moreover have "idleTimeoutRef (settle ?h') \<noteq> None \<Longrightarrow> idleTimeoutRef h \<noteq> None"
    using settle_idleTimeoutRef [of ?h'] s i by (auto simp del: not_None_eq)
  ultimately show ?thesis
    using assms by (auto simp: timer_weight_def fire_def)
qed

lemma fire_listeningToIdle_weight:
  assumes "idleTimeoutRef h \<noteq> None"
  shows "timer_weight (fire listeningToIdle h) < timer_weight h"
proof -
  let ?h' = "idle_callback (h\<lparr>idleTimeoutRef := None\<rparr>)"
  have s: "state (config ?h') = idle" and w: "wakeTimeout ?h' = wakeTimeout h"
    and i: "idleTimeoutRef ?h' = None"
    by (simp_all add: idle_callback_def)
  have "idleTimeoutRef (settle ?h') = None"
    using settle_idleTimeoutRef [of ?h'] s i by (auto simp del: not_None_eq)
  moreover have "wakeTimeout (settle ?h') \<noteq> None \<Longrightarrow> wakeTimeout h \<noteq> None"
    using settle_wakeTimeout [of ?h'] s w by (auto simp del: not_None_eq)
  ultimately show ?thesis
    using assms by (auto simp: timer_weight_def fire_def)
qed

lemma fire_idleToSleep_weight:
  assumes "sleepTimeoutRef h \<noteq> None"
  shows "timer_weight (fire idleToSleep h) < timer_weight h"
proof -
  let ?h' = "sleep_callback (h\<lparr>sleepTimeoutRef := None\<rparr>)"
  have s: "state (config ?h') = sleep" and w: "wakeTimeout ?h' = wakeTimeout h"
    and i: "idleTimeoutRef ?h' = idleTimeoutRef h" and z: "sleepTimeoutRef ?h' = None"
    by (simp_all add: sleep_callback_def)
  have "sleepTimeoutRef (settle ?h') = None"
    using settle_sleepTimeoutRef [of ?h'] s z by (auto simp del: not_None_eq)
  moreover have "wakeTimeout (settle ?h') \<noteq> None \<Longrightarrow> wakeTimeout h \<noteq> None"
    using settle_wakeTimeout [of ?h'] s w by (auto simp del: not_None_eq)
  moreover have "idleTimeoutRef (settle ?h') \<noteq> None \<Longrightarrow> idleTimeoutRef h \<noteq> None"
    using settle_idleTimeoutRef [of ?h'] s i by (auto simp del: not_None_eq)
  ultimately show ?thesis
    using assms by (auto simp: timer_weight_def fire_def)
qed

lemma next_timeout_clock [simp]: "next_timeout (h\<lparr>clock := t\<rparr>) = next_timeout h"
  by (simp add: next_timeout_def pending_def)

lemma fire_next_weight:
  assumes "next_timeout h = Some (due, nm)"
  shows "timer_weight (fire nm (h\<lparr>clock := t\<rparr>)) < timer_weight h"
proof -
  have eq: "timer_weight (h\<lparr>clock := t\<rparr>) = timer_weight h"
    by (simp add: timer_weight_def)
  from next_timeout_pending [OF assms]
  show ?thesis
    using fire_wakeHold_weight [of "h\<lparr>clock := t\<rparr>"]
      fire_listeningToIdle_weight [of "h\<lparr>clock := t\<rparr>"]
      fire_idleToSleep_weight [of "h\<lparr>clock := t\<rparr>"] eq
    by auto
qed

text \<open>
  Time passing up to the instant \<open>t\<close> with no other signal: the pending timeouts that are
  due run in order, each at its own time, and each is followed by the passes it causes.
\<close>

function advance :: "nat \<Rightarrow> Hook \<Rightarrow> Hook" where
  "advance t h =
     (case next_timeout h of
        None \<Rightarrow> h\<lparr>clock := max (clock h) t\<rparr>
      | Some (due, nm) \<Rightarrow>
          if due \<le> t then advance t (fire nm (h\<lparr>clock := max (clock h) due\<rparr>))
          else h\<lparr>clock := max (clock h) t\<rparr>)"
  by pat_completeness auto
termination
proof (relation "measure (\<lambda>(t, h). timer_weight h)")
  show "wf (measure (\<lambda>(t, h). timer_weight h))" by simp
next
  fix t h x due nm
  assume "next_timeout h = Some x" and "(due, nm) = x"
  then have "next_timeout h = Some (due, nm)" by simp
  from fire_next_weight [OF this]
  show "((t, fire nm (h\<lparr>clock := max (clock h) due\<rparr>)), t, h)
          \<in> measure (\<lambda>(t, h). timer_weight h)"
    by simp
qed

declare advance.simps [simp del]

text \<open>The hook as mounted at time \<open>t0\<close>: the initial \<^verbatim>\<open>config\<close>, then every effect once.\<close>

definition initial_hook :: "nat \<Rightarrow> Hook" where
  "initial_hook t0 =
     \<lparr>config = \<lparr>state = idle, levels = [], micLevel = 0, lastBackendEvent = t0,
                wakeStartTime = None\<rparr>,
      arg_micLevel = 0, arg_isBlinking = False,
      wakeTimeout = None, idleTimeoutRef = None, sleepTimeoutRef = None,
      dep_state = idle, dep_wakeStartTime = None, clock = t0, nextTimerId = 0\<rparr>"

definition mount :: "nat \<Rightarrow> Hook" where
  "mount t0 =
     (let h = initial_hook t0; c = config h
      in settle (sleep_effect c (listening_effect c (wake_effect c (mic_effect h)))))"

subsection \<open>Exact results of settling\<close>

lemma wake_effect_nextTimerId:
  "nextTimerId (wake_effect c h)
     = (if state c = wake \<and> truthy (wakeStartTime c) then Suc (nextTimerId h)
        else nextTimerId h)"
  by (simp add: wake_effect_def setTimeout_def Let_def)

lemma rerender_levels:
  "levels (config (run_effects False None h))
     = (if state (config h) = dep_state h then levels (config h)
        else if \<not> mic_blocked (state (config h)) \<and> arg_micLevel h > 0.1
        then replicate 12 (arg_micLevel h)
        else if state (config h) = listening \<and> \<not> arg_micLevel h < 0.03
        then replicate 12 (arg_micLevel h)
        else levels (config h))"
  by (simp add: run_effects_def Let_def listening_effect_levels)

lemma rerender_idleTimeoutRef_eq:
  "idleTimeoutRef (run_effects False None h)
     = (if state (config h) = dep_state h \<or> mic_blocked (state (config h))
        then idleTimeoutRef h
        else if arg_micLevel h > 0.1 then None
        else if state (config h) = listening \<and> arg_micLevel h < 0.03
        then Some (clock h + 3000, nextTimerId h)
        else idleTimeoutRef h)"
  by (auto simp add: run_effects_def Let_def listening_effect_timeout wake_effect_nextTimerId
        mic_blocked_def)

lemma rerender_sleepTimeoutRef_eq:
  "sleepTimeoutRef (run_effects False None h)
     = (if state (config h) = dep_state h then sleepTimeoutRef h
        else if state (config h) = idle \<and> arg_micLevel h < 0.03
        then Some (clock h + 10000, nextTimerId h)
        else None)"
  by (auto simp add: run_effects_def Let_def sleep_effect_timeout wake_effect_nextTimerId
        listening_effect_def)

lemma settle_levels:
  "levels (config (settle h))
     = (if state (config h) = dep_state h then levels (config h)
        else if \<not> mic_blocked (state (config h)) \<and> arg_micLevel h > 0.1
        then replicate 12 (arg_micLevel h)
        else if state (config h) = listening \<and> \<not> arg_micLevel h < 0.03
        then replicate 12 (arg_micLevel h)
        else levels (config h))"
proof (cases "settled h")
  case True
  then show ?thesis by (simp add: settle_settled settled_def)
next
  case False
  show ?thesis
  proof (cases "settled (run_effects False None h)")
    case True
    then show ?thesis using False by (simp add: settle_unroll rerender_levels)
  next
    case u: False
    note l = unsettled_pass_listening [OF u]
    have "levels (config (run_effects False None (run_effects False None h)))
            = replicate 12 (arg_micLevel h)"
      using l by (simp add: rerender_levels [of "run_effects False None h"] mic_blocked_def)
    moreover have "\<not> mic_blocked (state (config h))"
      using u by (simp add: settled_def rerender_state split: if_splits)
    ultimately show ?thesis using False u l by (simp add: settle_unroll)
  qed
qed

lemma settle_wakeTimeout_eq:
  "wakeTimeout (settle h)
     = (if settled h then wakeTimeout h
        else if state (config h) = wake \<and> truthy (wakeStartTime (config h))
        then Some (clock h + 500, nextTimerId h) else None)"
proof (cases "settled h")
  case True
  then show ?thesis by (simp add: settle_settled)
next
  case False
  show ?thesis
  proof (cases "settled (run_effects False None h)")
    case True
    have ch: "state (config h) \<noteq> dep_state h
               \<or> wakeStartTime (config h) \<noteq> dep_wakeStartTime h"
      using False by (simp add: settled_def)
    have "settle h = run_effects False None h"
      using True False by (simp add: settle_unroll)
    then show ?thesis using False ch by (simp add: rerender_wakeTimeout)
  next
    case u: False
    note l = unsettled_pass_listening [OF u]
    have nb: "\<not> mic_blocked (state (config h))"
      using u by (simp add: settled_def rerender_state split: if_splits)
    have "wakeTimeout (run_effects False None (run_effects False None h)) = None"
      using l u by (simp add: rerender_wakeTimeout [of "run_effects False None h"] settled_def)
    then show ?thesis using False u nb by (simp add: settle_unroll mic_blocked_def)
  qed
qed

lemma settle_idleTimeoutRef_eq:
  "idleTimeoutRef (settle h)
     = (if state (config h) = dep_state h \<or> mic_blocked (state (config h))
        then idleTimeoutRef h
        else if arg_micLevel h > 0.1 then None
        else if state (config h) = listening \<and> arg_micLevel h < 0.03
        then Some (clock h + 3000, nextTimerId h)
        else idleTimeoutRef h)"
proof (cases "settled h")
  case True
  then show ?thesis by (simp add: settle_settled settled_def)
next
  case False
  show ?thesis
  proof (cases "settled (run_effects False None h)")
    case True
    then show ?thesis using False by (simp add: settle_unroll rerender_idleTimeoutRef_eq)
  next
    case u: False
    note l = unsettled_pass_listening [OF u]
    have nb: "\<not> mic_blocked (state (config h))"
      using u by (simp add: settled_def rerender_state split: if_splits)
    have "idleTimeoutRef (run_effects False None (run_effects False None h)) = None"
      using l u by (simp add: rerender_idleTimeoutRef_eq [of "run_effects False None h"]
          settled_def mic_blocked_def)
    then show ?thesis using False u nb l by (simp add: settle_unroll)
  qed
qed

lemma settle_sleepTimeoutRef_eq:
  "sleepTimeoutRef (settle h)
     = (if state (config h) = dep_state h then sleepTimeoutRef h
        else if state (config h) = idle \<and> arg_micLevel h < 0.03
        then Some (clock h + 10000, nextTimerId h)
        else None)"
proof (cases "settled h")
  case True
  then show ?thesis by (simp add: settle_settled settled_def)
next
  case False
  show ?thesis
  proof (cases "settled (run_effects False None h)")
    case True
    then show ?thesis using False by (simp add: settle_unroll rerender_sleepTimeoutRef_eq)
  next
    case u: False
    note l = unsettled_pass_listening [OF u]
    have "sleepTimeoutRef (run_effects False None (run_effects False None h)) = None"
      using l u by (simp add: rerender_sleepTimeoutRef_eq [of "run_effects False None h"]
          settled_def)
    then show ?thesis using False u l by (simp add: settle_unroll)
  qed
qed

subsection \<open>The first pass of a signal\<close>

lemma settled_backend_pass:
  "settled h \<Longrightarrow> run_effects False (Some e) h = backend_effect e h"
  by (simp add: run_effects_def Let_def settled_def)

lemma settled_mic_pass:
  "settled h \<Longrightarrow>
   run_effects True None h
     = sleep_effect (config h) (listening_effect (config h) (mic_effect h))"
  by (simp add: run_effects_def Let_def settled_def)

lemma backend_effect_state:
  "state (config (backend_effect e h))
     = (if event e = ''wake'' then wake
        else if event e = ''thinking'' then thinking
        else if event e = ''talk'' then talk
        else if event e = ''idle'' then idle
        else if event e = ''sleep'' then sleep
        else if event e = ''listening'' then listening
        else state (config h))"
  by (simp add: backend_effect_def Let_def)

lemma backend_effect_levels:
  "levels (config (backend_effect e h))
     = (if event e = ''wake'' \<or> event e = ''thinking'' then []
        else if event e = ''talk'' then (case event_levels e of None \<Rightarrow> [] | Some l \<Rightarrow> l)
        else if event e = ''idle'' \<or> event e = ''sleep'' \<or> event e = ''listening'' then []
        else levels (config h))"
  by (simp add: backend_effect_def Let_def)

lemma backend_effect_wakeStartTime:
  "wakeStartTime (config (backend_effect e h))
     = (if event e = ''wake'' then Some (clock h) else wakeStartTime (config h))"
  by (simp add: backend_effect_def Let_def)

section \<open>Hooks a run can reach\<close>

text \<open>
  Between two signals the effects have settled, the stored state is never \<open>blink\<close>, an
  idle hook has a microphone level of at most 0.1 (a louder one made it listen), a pending
  wake timeout belongs to the state \<open>wake\<close> and a pending sleep timeout to the state
  \<open>idle\<close>.
\<close>

definition wf_hook :: "Hook \<Rightarrow> bool" where
  "wf_hook h =
     (settled h \<and> state (config h) \<noteq> blink
      \<and> (state (config h) = idle \<longrightarrow> arg_micLevel h \<le> 0.1)
      \<and> (wakeTimeout h \<noteq> None \<longrightarrow> state (config h) = wake)
      \<and> (sleepTimeoutRef h \<noteq> None \<longrightarrow> state (config h) = idle))"

datatype Signal = MicLevel real | Backend BackendEvent | Blinking bool | Until nat

fun step :: "Signal \<Rightarrow> Hook \<Rightarrow> Hook" where
  "step (MicLevel a) h = on_micLevel a h"
| "step (Backend e) h = on_backendEvent e h"
| "step (Blinking b) h = on_isBlinking b h"
| "step (Until t) h = advance t h"

fun run :: "Signal list \<Rightarrow> Hook \<Rightarrow> Hook" where
  "run [] h = h"
| "run (s # sigs) h = run sigs (step s h)"

lemma wf_after_settle:
  assumes blink0: "dep_state h1 \<noteq> blink" and blink1: "state (config h1) \<noteq> blink"
    and quiet: "state (config h1) = idle \<Longrightarrow> dep_state h1 = idle \<Longrightarrow> arg_micLevel h1 \<le> 0.1"
    and wk: "settled h1 \<Longrightarrow> wakeTimeout h1 \<noteq> None \<Longrightarrow> state (config h1) = wake"
    and sl: "state (config h1) = dep_state h1 \<Longrightarrow> sleepTimeoutRef h1 \<noteq> None
               \<Longrightarrow> state (config h1) = idle"
  shows "wf_hook (settle h1)"
proof -
  have 1: "settled (settle h1)" by (rule settle_is_settled)
  have 2: "state (config (settle h1)) \<noteq> blink"
    using blink1 by (simp add: settle_state)
  have 3: "state (config (settle h1)) = idle \<longrightarrow> arg_micLevel (settle h1) \<le> 0.1"
  proof
    assume a: "state (config (settle h1)) = idle"
    then have i: "state (config h1) = idle"
      by (simp add: settle_state split: if_splits)
    show "arg_micLevel (settle h1) \<le> 0.1"
    proof (cases "dep_state h1 = idle")
      case True
      then show ?thesis using quiet i by simp
    next
      case False
      then show ?thesis using a i
        by (simp add: settle_state mic_blocked_def split: if_splits)
    qed
  qed
  have 4: "wakeTimeout (settle h1) \<noteq> None \<longrightarrow> state (config (settle h1)) = wake"
  proof
    assume a: "wakeTimeout (settle h1) \<noteq> None"
    show "state (config (settle h1)) = wake"
    proof (cases "settled h1")
      case True
      then show ?thesis using a wk by (simp add: settle_settled)
    next
      case False
      then have "state (config h1) = wake"
        using a by (simp add: settle_wakeTimeout_eq split: if_splits)
      then show ?thesis by (simp add: settle_state mic_blocked_def)
    qed
  qed
  have 5: "sleepTimeoutRef (settle h1) \<noteq> None \<longrightarrow> state (config (settle h1)) = idle"
  proof
    assume a: "sleepTimeoutRef (settle h1) \<noteq> None"
    show "state (config (settle h1)) = idle"
    proof (cases "state (config h1) = dep_state h1")
      case True
      then show ?thesis using a sl by (simp add: settle_sleepTimeoutRef_eq settle_state)
    next
      case False
      then have "state (config h1) = idle \<and> arg_micLevel h1 < 0.03"
        using a by (simp add: settle_sleepTimeoutRef_eq split: if_splits)
      then show ?thesis by (simp add: settle_state)
    qed
  qed
  from 1 2 3 4 5 show ?thesis by (simp add: wf_hook_def)
qed

lemma wf_hookD:
  assumes "wf_hook h"
  shows "dep_state h = state (config h)"
    and "dep_wakeStartTime h = wakeStartTime (config h)"
    and "state (config h) \<noteq> blink"
    and "state (config h) = idle \<Longrightarrow> arg_micLevel h \<le> 0.1"
    and "wakeTimeout h \<noteq> None \<Longrightarrow> state (config h) = wake"
    and "sleepTimeoutRef h \<noteq> None \<Longrightarrow> state (config h) = idle"
    and "settled h"
  using assms by (auto simp add: wf_hook_def settled_def)

lemma wf_on_backendEvent:
  assumes "wf_hook h"
  shows "wf_hook (on_backendEvent e h)"
proof -
  note D = wf_hookD [OF assms]
  have "wf_hook (settle (backend_effect e h))"
  proof (rule wf_after_settle)
    show "dep_state (backend_effect e h) \<noteq> blink"
      using D(1,3) by simp
    show "state (config (backend_effect e h)) \<noteq> blink"
      using D(3) by (simp add: backend_effect_state)
    show "arg_micLevel (backend_effect e h) \<le> 0.1"
      if "dep_state (backend_effect e h) = idle"
      using that D(1,4) by simp
    show "state (config (backend_effect e h)) = wake"
      if "settled (backend_effect e h)" "wakeTimeout (backend_effect e h) \<noteq> None"
      using that D(1,5) by (simp add: settled_def)
    show "state (config (backend_effect e h)) = idle"
      if "state (config (backend_effect e h)) = dep_state (backend_effect e h)"
         "sleepTimeoutRef (backend_effect e h) \<noteq> None"
      using that D(1,6) by simp
  qed
  then show ?thesis using D(7) by (simp add: on_backendEvent_def settled_backend_pass)
qed

lemma wf_on_micLevel:
  assumes "wf_hook h"
  shows "wf_hook (on_micLevel a h)"
proof (cases "a = arg_micLevel h")
  case True
  then show ?thesis using assms by (simp add: on_micLevel_def)
next
  case False
  note D = wf_hookD [OF assms]
  let ?h0 = "h\<lparr>arg_micLevel := a\<rparr>"
  let ?h1 = "sleep_effect (config ?h0) (listening_effect (config ?h0) (mic_effect ?h0))"
  from D(7) have s: "settled ?h0" by (simp add: settled_def)
  have "wf_hook (settle ?h1)"
  proof (rule wf_after_settle)
    show "dep_state ?h1 \<noteq> blink"
      using D(1,3) by simp
    show "state (config ?h1) \<noteq> blink"
      using D(3) by (simp add: listening_effect_state)
    show "arg_micLevel ?h1 \<le> 0.1" if "state (config ?h1) = idle"
      using that by (simp add: listening_effect_state mic_blocked_def split: if_splits)
    show "state (config ?h1) = wake" if "wakeTimeout ?h1 \<noteq> None"
      using that D(5) by (simp add: listening_effect_state mic_blocked_def)
    show "state (config ?h1) = idle" if "sleepTimeoutRef ?h1 \<noteq> None"
      using that
      by (simp add: listening_effect_state sleep_effect_timeout mic_blocked_def
            split: if_splits)
  qed
  then show ?thesis using False s by (simp add: on_micLevel_def settled_mic_pass)
qed

lemma wf_on_isBlinking: "wf_hook h \<Longrightarrow> wf_hook (on_isBlinking b h)"
  by (auto simp add: wf_hook_def on_isBlinking_def settled_def)

lemma wf_clock: "wf_hook (h\<lparr>clock := t\<rparr>) = wf_hook h"
  by (auto simp add: wf_hook_def settled_def)

lemma wf_fire:
  assumes "wf_hook h"
  shows "wf_hook (fire nm h)"
proof -
  note D = wf_hookD [OF assms]
  show ?thesis
  proof (cases nm)
    case wakeHold
    have "wf_hook (settle (wake_callback (h\<lparr>wakeTimeout := None\<rparr>)))"
    proof (rule wf_after_settle)
      show "dep_state (wake_callback (h\<lparr>wakeTimeout := None\<rparr>)) \<noteq> blink"
        using D(1,3) by (simp add: wake_callback_def)
      show "arg_micLevel (wake_callback (h\<lparr>wakeTimeout := None\<rparr>)) \<le> 0.1"
        if "dep_state (wake_callback (h\<lparr>wakeTimeout := None\<rparr>)) = idle"
        using that D(1,4) by (simp add: wake_callback_def)
    qed (simp_all add: wake_callback_def)
    then show ?thesis using wakeHold by (simp add: fire_def)
  next
    case listeningToIdle
    have "wf_hook (settle (idle_callback (h\<lparr>idleTimeoutRef := None\<rparr>)))"
    proof (rule wf_after_settle)
      show "dep_state (idle_callback (h\<lparr>idleTimeoutRef := None\<rparr>)) \<noteq> blink"
        using D(1,3) by (simp add: idle_callback_def)
      show "arg_micLevel (idle_callback (h\<lparr>idleTimeoutRef := None\<rparr>)) \<le> 0.1"
        if "dep_state (idle_callback (h\<lparr>idleTimeoutRef := None\<rparr>)) = idle"
        using that D(1,4) by (simp add: idle_callback_def)
      show "state (config (idle_callback (h\<lparr>idleTimeoutRef := None\<rparr>))) = wake"
        if "settled (idle_callback (h\<lparr>idleTimeoutRef := None\<rparr>))"
           "wakeTimeout (idle_callback (h\<lparr>idleTimeoutRef := None\<rparr>)) \<noteq> None"
        using that D(1,5) by (simp add: idle_callback_def settled_def)
    qed (simp_all add: idle_callback_def)
    then show ?thesis using listeningToIdle by (simp add: fire_def)
  next
    case idleToSleep
    have "wf_hook (settle (sleep_callback (h\<lparr>sleepTimeoutRef := None\<rparr>)))"
    proof (rule wf_after_settle)
      show "dep_state (sleep_callback (h\<lparr>sleepTimeoutRef := None\<rparr>)) \<noteq> blink"
        using D(1,3) by (simp add: sleep_callback_def)
      show "state (config (sleep_callback (h\<lparr>sleepTimeoutRef := None\<rparr>))) = wake"
        if "settled (sleep_callback (h\<lparr>sleepTimeoutRef := None\<rparr>))"
           "wakeTimeout (sleep_callback (h\<lparr>sleepTimeoutRef := None\<rparr>)) \<noteq> None"
        using that D(1,5) by (simp add: sleep_callback_def settled_def)
    qed (simp_all add: sleep_callback_def)
    then show ?thesis using idleToSleep by (simp add: fire_def)
  qed
qed

lemma wf_advance: "wf_hook h \<Longrightarrow> wf_hook (advance t h)"
proof (induction t h rule: advance.induct)
  case (1 t h)
  show ?case
  proof (cases "next_timeout h")
    case None
    then show ?thesis using "1.prems" by (simp add: advance.simps [of t h] wf_clock)
  next
    case (Some x)
    obtain due nm where x: "x = (due, nm)" by (cases x)
    show ?thesis
    proof (cases "due \<le> t")
      case True
      have "wf_hook (fire nm (h\<lparr>clock := max (clock h) due\<rparr>))"
        using "1.prems" by (simp add: wf_fire wf_clock)
      from "1.IH" [OF Some x [symmetric] True this]
      show ?thesis using Some x True by (simp add: advance.simps [of t h])
    next
      case False
      then show ?thesis using Some x "1.prems" by (simp add: advance.simps [of t h] wf_clock)
    qed
  qed
qed

lemma wf_step: "wf_hook h \<Longrightarrow> wf_hook (step s h)"
  by (cases s) (simp_all add: wf_on_micLevel wf_on_backendEvent wf_on_isBlinking wf_advance)

lemma wf_run: "wf_hook h \<Longrightarrow> wf_hook (run sigs h)"
  by (induction sigs arbitrary: h) (simp_all add: wf_step)

lemma wf_mount: "wf_hook (mount t0)"
proof -
  let ?h = "initial_hook t0"
  let ?h1 = "sleep_effect (config ?h) (listening_effect (config ?h)
               (wake_effect (config ?h) (mic_effect ?h)))"
  have "wf_hook (settle ?h1)"
    by (rule wf_after_settle)
       (simp_all add: initial_hook_def listening_effect_state mic_blocked_def settled_def
          wake_effect_timeout truthy_def)
  then show ?thesis by (simp add: mount_def Let_def)
qed

section \<open>Claims about the state machine\<close>

lemmas hook_eval =
  mount_def initial_hook_def on_backendEvent_def on_micLevel_def on_isBlinking_def
  run_effects_def settle_unroll settled_def mic_effect_def backend_effect_def wake_effect_def
  listening_effect_def sleep_effect_def setConfig_def setTimeout_def Let_def truthy_def
  wake_callback_def idle_callback_def sleep_callback_def next_timeout_def pending_def
  timer_le_def fire_def hook_state_def hook_levels_def finalState_def finalLevels_def
  emitted_levels_def

lemma on_backendEvent_settle:
  "wf_hook h \<Longrightarrow> on_backendEvent e h = settle (backend_effect e h)"
  by (simp add: on_backendEvent_def settled_backend_pass wf_hookD(7))

subsection \<open>A talk event without levels\<close>

text \<open>
  C3.  A \<open>talk\<close> event that carries no \<open>levels\<close> leaves the logical state \<open>talk\<close>; the hook
  stores the empty array for it, and the level vector the face renders from that is the
  vector of 12 zeros.
\<close>

theorem talk_without_levels:
  assumes "wf_hook h" and "event e = ''talk''" and "event_levels e = None"
  shows "state (config (on_backendEvent e h)) = talk
       \<and> hook_state (on_backendEvent e h) = talk
       \<and> hook_levels (on_backendEvent e h) = []
       \<and> emitted_levels (on_backendEvent e h) frame = replicate 12 0"
proof -
  let ?h1 = "backend_effect e h"
  have s1: "state (config ?h1) = talk" and l1: "levels (config ?h1) = []"
    using assms(2,3) by (simp_all add: backend_effect_state backend_effect_levels)
  have s: "state (config (settle ?h1)) = talk"
    using s1 by (simp add: settle_state mic_blocked_def)
  have l: "levels (config (settle ?h1)) = []"
    using s1 l1 by (simp add: settle_levels mic_blocked_def)
  show ?thesis
    using s l assms(1)
    by (simp add: on_backendEvent_settle hook_state_def hook_levels_def finalState_def
          emitted_levels_def finalLevels_def animationLevels_def)
qed

theorem talk_without_levels_witness:
  "wf_hook (mount 1000)
   \<and> hook_state (on_backendEvent \<lparr>event = ''talk'', event_levels = None\<rparr> (mount 1000)) = talk
   \<and> emitted_levels (on_backendEvent \<lparr>event = ''talk'', event_levels = None\<rparr> (mount 1000)) 0
       = [0, 0, 0, 0, 0, 0, 0, 0, 0, 0, 0, 0]"
  using talk_without_levels [where h = "mount 1000" and frame = 0
      and e = "\<lparr>event = ''talk'', event_levels = None\<rparr>", OF wf_mount]
  by (simp add: wf_mount eval_nat_numeral)

subsection \<open>Amplitude samples\<close>

lemma on_micLevel_settle:
  assumes "wf_hook h" and "a \<noteq> arg_micLevel h"
  shows "on_micLevel a h
           = settle (sleep_effect (config h) (listening_effect (config h)
               (mic_effect (h\<lparr>arg_micLevel := a\<rparr>))))"
proof -
  have "settled (h\<lparr>arg_micLevel := a\<rparr>)"
    using wf_hookD(7) [OF assms(1)] by (simp add: settled_def)
  then show ?thesis using assms(2) by (simp add: on_micLevel_def settled_mic_pass)
qed

lemma on_micLevel_state:
  assumes "wf_hook h"
  shows "state (config (on_micLevel a h))
           = (if \<not> mic_blocked (state (config h)) \<and> a > 0.1 then listening
              else state (config h))"
proof (cases "a = arg_micLevel h")
  case True
  note D = wf_hookD [OF assms]
  have "state (config h) = listening" if "\<not> mic_blocked (state (config h))" "a > 0.1"
    using that D(3,4) True by (cases "state (config h)") (simp_all add: mic_blocked_def)
  then show ?thesis using True by (auto simp add: on_micLevel_def)
next
  case False
  show ?thesis
    by (simp add: on_micLevel_settle [OF assms False] settle_state listening_effect_state
          mic_blocked_def)
qed

lemma on_micLevel_levels:
  assumes "wf_hook h" and "a \<noteq> arg_micLevel h"
  shows "levels (config (on_micLevel a h))
           = (if \<not> mic_blocked (state (config h)) \<and> a > 0.1 then replicate 12 a
              else if state (config h) = listening \<and> \<not> a < 0.03 then replicate 12 a
              else levels (config h))"
  using wf_hookD(1) [OF assms(1)]
  by (simp add: on_micLevel_settle [OF assms] settle_levels listening_effect_state
        listening_effect_levels mic_blocked_def)

lemma on_micLevel_arg [simp]: "arg_micLevel (on_micLevel a h) = a"
  by (simp add: on_micLevel_def run_effects_def Let_def)

lemma on_micLevel_isBlinking [simp]: "arg_isBlinking (on_micLevel a h) = arg_isBlinking h"
  by (simp add: on_micLevel_def run_effects_def Let_def)

text \<open>
  C6.  An amplitude sample above 0.1 taken while the logical state is none of talk, wake,
  thinking and sleep makes the logical state \<open>listening\<close>; the stored levels become 12
  copies of the amplitude (a sample equal to the previous one re-runs no effect, and then
  the vector rendered is 12 copies of it all the same).  A sample taken in one of the four
  states changes neither the state nor the levels.
\<close>

theorem amplitude_sample:
  assumes "wf_hook h"
  shows "(\<not> mic_blocked (state (config h)) \<and> a > 0.1 \<longrightarrow>
            state (config (on_micLevel a h)) = listening
            \<and> (a \<noteq> arg_micLevel h \<longrightarrow> hook_levels (on_micLevel a h) = replicate 12 a)
            \<and> (\<not> arg_isBlinking h \<longrightarrow> emitted_levels (on_micLevel a h) frame = replicate 12 a))
       \<and> (mic_blocked (state (config h)) \<longrightarrow>
            state (config (on_micLevel a h)) = state (config h)
            \<and> hook_levels (on_micLevel a h) = hook_levels h)"
proof (intro conjI impI)
  assume a: "\<not> mic_blocked (state (config h)) \<and> a > 0.1"
  then show s: "state (config (on_micLevel a h)) = listening"
    by (simp add: on_micLevel_state [OF assms])
  show "hook_levels (on_micLevel a h) = replicate 12 a" if "a \<noteq> arg_micLevel h"
    using a by (simp add: hook_levels_def on_micLevel_levels [OF assms that])
  show "emitted_levels (on_micLevel a h) frame = replicate 12 a" if "\<not> arg_isBlinking h"
    using a s that
    by (simp add: emitted_levels_def hook_state_def finalState_def finalLevels_def
          animationLevels_def)
next
  assume b: "mic_blocked (state (config h))"
  then show "state (config (on_micLevel a h)) = state (config h)"
    by (simp add: on_micLevel_state [OF assms])
  show "hook_levels (on_micLevel a h) = hook_levels h"
  proof (cases "a = arg_micLevel h")
    case True
    then show ?thesis by (simp add: on_micLevel_def)
  next
    case False
    then show ?thesis using b
      by (auto simp add: hook_levels_def on_micLevel_levels [OF assms False] mic_blocked_def)
  qed
qed

theorem amplitude_sample_witness:
  "wf_hook (mount 1000) \<and> \<not> mic_blocked (state (config (mount 1000)))
   \<and> state (config (on_micLevel 0.5 (mount 1000))) = listening
   \<and> hook_levels (on_micLevel 0.5 (mount 1000)) = replicate 12 0.5
   \<and> mic_blocked (state (config (on_backendEvent \<lparr>event = ''talk'', event_levels = None\<rparr> (mount 1000))))
   \<and> hook_levels (on_micLevel 0.5
        (on_backendEvent \<lparr>event = ''talk'', event_levels = None\<rparr> (mount 1000))) = []"
proof -
  let ?e = "\<lparr>event = ''talk'', event_levels = None\<rparr>"
  have m: "state (config (mount 1000)) = idle" "arg_micLevel (mount 1000) = 0"
    "arg_isBlinking (mount 1000) = False"
    by (simp_all add: hook_eval)
  have w: "wf_hook (on_backendEvent ?e (mount 1000))"
    by (rule wf_on_backendEvent [OF wf_mount])
  have t: "state (config (on_backendEvent ?e (mount 1000))) = talk"
    "hook_levels (on_backendEvent ?e (mount 1000)) = []"
    by (simp_all add: hook_eval)
  show ?thesis
    using amplitude_sample [where h = "mount 1000" and a = "0.5" and frame = 0, OF wf_mount]
      amplitude_sample [where a = "0.5" and frame = 0, OF w] m t
    by (simp add: wf_mount mic_blocked_def)
qed

subsection \<open>Backend events\<close>

text \<open>The state each branch of the backend handler sets; an unknown kind sets none.\<close>

definition event_state :: "string \<Rightarrow> MiniMeState option" where
  "event_state kind =
     (if kind = ''wake'' then Some wake
      else if kind = ''thinking'' then Some thinking
      else if kind = ''talk'' then Some talk
      else if kind = ''idle'' then Some idle
      else if kind = ''sleep'' then Some sleep
      else if kind = ''listening'' then Some listening
      else None)"

lemma backend_effect_event_state:
  "event_state (event e) = Some s \<Longrightarrow> state (config (backend_effect e h)) = s"
  by (simp add: event_state_def backend_effect_state split: if_splits)

lemma backend_effect_pending: "pending (backend_effect e h) = pending h"
  by (simp add: pending_def)

lemma on_backendEvent_wakeTimeout:
  assumes "wf_hook h" and "state (config (backend_effect e h)) \<noteq> wake"
  shows "wakeTimeout (on_backendEvent e h) = None"
proof (cases "settled (backend_effect e h)")
  case True
  then have "state (config h) \<noteq> wake"
    using assms(2) wf_hookD(1) [OF assms(1)] by (simp add: settled_def)
  then have "wakeTimeout h = None"
    using wf_hookD(5) [OF assms(1)] by blast
  then show ?thesis
    using True by (simp add: on_backendEvent_settle [OF assms(1)] settle_settled)
next
  case False
  then show ?thesis
    using assms(2) by (simp add: on_backendEvent_settle [OF assms(1)] settle_wakeTimeout_eq)
qed

lemma on_backendEvent_sleepTimeoutRef:
  assumes "wf_hook h" and "state (config (backend_effect e h)) \<noteq> idle"
  shows "sleepTimeoutRef (on_backendEvent e h) = None"
proof (cases "state (config (backend_effect e h)) = dep_state (backend_effect e h)")
  case True
  then have "state (config h) \<noteq> idle"
    using assms(2) wf_hookD(1) [OF assms(1)] by simp
  then have "sleepTimeoutRef h = None"
    using wf_hookD(6) [OF assms(1)] by blast
  then show ?thesis
    using True by (simp add: on_backendEvent_settle [OF assms(1)] settle_sleepTimeoutRef_eq)
next
  case False
  then show ?thesis
    using assms(2)
    by (simp add: on_backendEvent_settle [OF assms(1)] settle_sleepTimeoutRef_eq)
qed

lemma on_backendEvent_state:
  assumes "wf_hook h"
  shows "state (config (on_backendEvent e h))
           = (if state (config (backend_effect e h)) = idle \<and> arg_micLevel h > 0.1
              then listening else state (config (backend_effect e h)))"
proof -
  note D = wf_hookD [OF assms]
  show ?thesis
  proof (cases "state (config (backend_effect e h)) = state (config h)")
    case True
    then show ?thesis
      using D(1,4) by (auto simp add: on_backendEvent_settle [OF assms] settle_state)
  next
    case False
    then show ?thesis
      using D(1,3)
      by (cases "state (config (backend_effect e h))")
         (auto simp add: on_backendEvent_settle [OF assms] settle_state mic_blocked_def
            backend_effect_state split: if_splits)
  qed
qed

text \<open>
  C1 (as the code has it).  For a backend event of one of the six kinds, the handler's
  update makes the logical state the event's target state and cancels no timeout.  Once the
  effects have run again, the state is still the target (an \<open>idle\<close> event arriving while the
  microphone level is above 0.1 turns to \<open>listening\<close> at once), every event but \<open>wake\<close> has
  cancelled a pending wake timeout, every event but \<open>idle\<close> has cancelled a pending sleep
  timeout, and a \<open>wake\<close> event at a new time has replaced the wake timeout by one due 500 ms
  later.  Nothing is said here of a pending idle-reversion timeout.
\<close>

theorem backend_event_target:
  assumes "wf_hook h" and "event_state (event e) = Some s"
  shows "state (config (backend_effect e h)) = s
       \<and> pending (backend_effect e h) = pending h
       \<and> state (config (on_backendEvent e h))
           = (if s = idle \<and> arg_micLevel h > 0.1 then listening else s)
       \<and> (s \<noteq> wake \<longrightarrow> wakeTimeout (on_backendEvent e h) = None)
       \<and> (s \<noteq> idle \<longrightarrow> sleepTimeoutRef (on_backendEvent e h) = None)
       \<and> (s = wake \<and> clock h \<noteq> 0 \<and> wakeStartTime (config h) \<noteq> Some (clock h) \<longrightarrow>
            wakeTimeout (on_backendEvent e h) = Some (clock h + 500, nextTimerId h))"
proof -
  have s: "state (config (backend_effect e h)) = s"
    by (rule backend_effect_event_state [OF assms(2)])
  have w: "wakeTimeout (on_backendEvent e h) = Some (clock h + 500, nextTimerId h)"
    if "s = wake \<and> clock h \<noteq> 0 \<and> wakeStartTime (config h) \<noteq> Some (clock h)"
  proof -
    from that assms(2) have k: "event e = ''wake''"
      by (simp add: event_state_def split: if_splits)
    then have "wakeStartTime (config (backend_effect e h)) = Some (clock h)"
      by (simp add: backend_effect_wakeStartTime)
    then have "\<not> settled (backend_effect e h)"
      using that wf_hookD(2) [OF assms(1)] by (auto simp add: settled_def)
    then show ?thesis
      using that s k
      by (simp add: on_backendEvent_settle [OF assms(1)] settle_wakeTimeout_eq
            backend_effect_wakeStartTime truthy_def)
  qed
  show ?thesis
    using s w on_backendEvent_wakeTimeout [OF assms(1), of e]
      on_backendEvent_sleepTimeoutRef [OF assms(1), of e]
    by (simp add: backend_effect_pending on_backendEvent_state [OF assms(1)])
qed

theorem backend_event_target_witness:
  "wf_hook (mount 1000)
   \<and> event_state (event \<lparr>event = ''wake'', event_levels = None\<rparr>) = Some wake
   \<and> state (config (on_backendEvent \<lparr>event = ''wake'', event_levels = None\<rparr> (mount 1000))) = wake
   \<and> sleepTimeoutRef (on_backendEvent \<lparr>event = ''wake'', event_levels = None\<rparr> (mount 1000)) = None
   \<and> wakeTimeout (on_backendEvent \<lparr>event = ''wake'', event_levels = None\<rparr> (mount 1000))
       = Some (1500, 1)"
proof -
  have m: "clock (mount 1000) = 1000" "nextTimerId (mount 1000) = 1"
    "wakeStartTime (config (mount 1000)) = None"
    by (simp_all add: hook_eval)
  have k: "event_state (event \<lparr>event = ''wake'', event_levels = None\<rparr>) = Some wake"
    by (simp add: event_state_def)
  show ?thesis
    using backend_event_target [OF wf_mount k, of 1000] m k
    by (simp add: wf_mount)
qed

text \<open>
  A backend event does not cancel every pending timeout.  The hook mounted at time 1000
  is idle with its sleep timeout due at 11000; an \<open>idle\<close> event at time 3000 leaves that
  same timeout pending.
\<close>

theorem backend_event_keeps_timer_counterexample:
  "sleepTimeoutRef (advance 3000 (mount 1000)) = Some (11000, 0)
   \<and> sleepTimeoutRef (on_backendEvent \<lparr>event = ''idle'', event_levels = None\<rparr>
        (advance 3000 (mount 1000))) = Some (11000, 0)
   \<and> pending (on_backendEvent \<lparr>event = ''idle'', event_levels = None\<rparr>
        (advance 3000 (mount 1000))) = [((11000, 0), idleToSleep)]"
  by (simp add: hook_eval advance.simps)

text \<open>
  The idle-reversion timeout is cancelled by no backend event.  Listening, then silence at
  time 1000, starts it, due at 4000; a \<open>talk\<close> event leaves it pending, and when it runs
  the logical state goes from \<open>talk\<close> to \<open>idle\<close>.
\<close>

lemma stale_idle_timeout_overrides_talk:
  "idleTimeoutRef (on_micLevel 0.01 (on_micLevel 0.5 (mount 1000))) = Some (4000, 1)
   \<and> state (config (on_backendEvent \<lparr>event = ''talk'', event_levels = None\<rparr>
        (on_micLevel 0.01 (on_micLevel 0.5 (mount 1000))))) = talk
   \<and> idleTimeoutRef (on_backendEvent \<lparr>event = ''talk'', event_levels = None\<rparr>
        (on_micLevel 0.01 (on_micLevel 0.5 (mount 1000)))) = Some (4000, 1)
   \<and> state (config (advance 4000 (on_backendEvent \<lparr>event = ''talk'', event_levels = None\<rparr>
        (on_micLevel 0.01 (on_micLevel 0.5 (mount 1000)))))) = idle"
  by (simp add: hook_eval advance.simps)

subsection \<open>Time passing\<close>

lemma advance_none:
  "next_timeout h = None \<Longrightarrow> advance t h = h\<lparr>clock := max (clock h) t\<rparr>"
  by (simp add: advance.simps [of t h])

lemma advance_later:
  "next_timeout h = Some (due, nm) \<Longrightarrow> t < due \<Longrightarrow> advance t h = h\<lparr>clock := max (clock h) t\<rparr>"
  by (simp add: advance.simps [of t h])

lemma advance_due:
  "next_timeout h = Some (due, nm) \<Longrightarrow> due \<le> t \<Longrightarrow>
   advance t h = advance t (fire nm (h\<lparr>clock := max (clock h) due\<rparr>))"
  by (simp add: advance.simps [of t h])

lemma next_timeout_no_timer:
  "wakeTimeout h = None \<Longrightarrow> idleTimeoutRef h = None \<Longrightarrow> sleepTimeoutRef h = None
   \<Longrightarrow> next_timeout h = None"
  by (simp add: next_timeout_def pending_def)

lemma next_timeout_only_wake:
  "wakeTimeout h = Some (due, i) \<Longrightarrow> idleTimeoutRef h = None \<Longrightarrow> sleepTimeoutRef h = None
   \<Longrightarrow> next_timeout h = Some (due, wakeHold)"
  by (simp add: next_timeout_def pending_def)

lemma next_timeout_only_idle:
  "wakeTimeout h = None \<Longrightarrow> idleTimeoutRef h = Some (due, i) \<Longrightarrow> sleepTimeoutRef h = None
   \<Longrightarrow> next_timeout h = Some (due, listeningToIdle)"
  by (simp add: next_timeout_def pending_def)

lemma next_timeout_only_sleep:
  "wakeTimeout h = None \<Longrightarrow> idleTimeoutRef h = None \<Longrightarrow> sleepTimeoutRef h = Some (due, i)
   \<Longrightarrow> next_timeout h = Some (due, idleToSleep)"
  by (simp add: next_timeout_def pending_def)

lemma wf_no_wakeTimeout: "wf_hook h \<Longrightarrow> state (config h) \<noteq> wake \<Longrightarrow> wakeTimeout h = None"
  using wf_hookD(5) [of h] by blast

lemma wf_no_sleepTimeout: "wf_hook h \<Longrightarrow> state (config h) \<noteq> idle \<Longrightarrow> sleepTimeoutRef h = None"
  using wf_hookD(6) [of h] by blast

subsection \<open>The idle-reversion timeout\<close>

lemma on_micLevel_idleTimeoutRef:
  assumes "wf_hook h" and "a \<noteq> arg_micLevel h"
  shows "idleTimeoutRef (on_micLevel a h)
           = (if mic_blocked (state (config h)) then idleTimeoutRef h
              else if a > 0.1 then None
              else if state (config h) = listening \<and> a < 0.03
              then Some (clock h + 3000, nextTimerId h)
              else idleTimeoutRef h)"
  using wf_hookD(1) [OF assms(1)]
  by (simp add: on_micLevel_settle [OF assms] settle_idleTimeoutRef_eq listening_effect_state
        listening_effect_timeout mic_blocked_def)

lemma on_micLevel_clock [simp]: "clock (on_micLevel a h) = clock h"
  by (simp add: on_micLevel_def run_effects_def Let_def)

lemma on_backendEvent_idleTimeoutRef:
  assumes "wf_hook h" and "arg_micLevel h \<le> 0.1" and "idleTimeoutRef h \<noteq> None"
  shows "idleTimeoutRef (on_backendEvent e h) \<noteq> None"
  using assms(2,3)
  by (simp add: on_backendEvent_settle [OF assms(1)] settle_idleTimeoutRef_eq)

text \<open>
  The signals of a stretch in which the amplitude stays in the band from 0.03 to 0.1 and
  the time stays before \<open>due\<close>: microphone samples in the band, blink changes, and time
  passing.
\<close>

fun band_signal :: "nat \<Rightarrow> Signal \<Rightarrow> bool" where
  "band_signal due (MicLevel a) = (0.03 \<le> a \<and> a \<le> 0.1)"
| "band_signal due (Backend e) = False"
| "band_signal due (Blinking b) = True"
| "band_signal due (Until t) = (t < due)"

definition waiting :: "nat \<times> nat \<Rightarrow> Hook \<Rightarrow> bool" where
  "waiting t h =
     (wf_hook h \<and> state (config h) = listening \<and> idleTimeoutRef h = Some t
      \<and> arg_micLevel h \<le> 0.1)"

lemma waiting_step:
  assumes "waiting t h" and "band_signal (fst t) s"
  shows "waiting t (step s h)"
proof -
  from assms(1) have wf: "wf_hook h" and st: "state (config h) = listening"
    and it: "idleTimeoutRef h = Some t" and q: "arg_micLevel h \<le> 0.1"
    by (simp_all add: waiting_def)
  show ?thesis
  proof (cases s)
    case (MicLevel a)
    show ?thesis
    proof (cases "a = arg_micLevel h")
      case True
      then show ?thesis using assms(1) MicLevel by (simp add: on_micLevel_def)
    next
      case False
      have "state (config (on_micLevel a h)) = listening"
        using st by (simp add: on_micLevel_state [OF wf])
      moreover have "idleTimeoutRef (on_micLevel a h) = Some t"
        using st it assms(2) MicLevel
        by (simp add: on_micLevel_idleTimeoutRef [OF wf False] mic_blocked_def)
      ultimately show ?thesis
        using MicLevel assms(2) wf_on_micLevel [OF wf, of a] by (simp add: waiting_def)
    qed
  next
    case (Backend e)
    then show ?thesis using assms(2) by simp
  next
    case (Blinking b)
    then show ?thesis
      using assms(1) wf_on_isBlinking [OF wf, of b]
      by (simp add: waiting_def) (simp add: on_isBlinking_def)
  next
    case (Until u)
    obtain due i where t: "t = (due, i)" by (cases t)
    have "wakeTimeout h = None" "sleepTimeoutRef h = None"
      using wf st by (simp_all add: wf_no_wakeTimeout wf_no_sleepTimeout)
    then have "next_timeout h = Some (due, listeningToIdle)"
      using it t by (simp add: next_timeout_only_idle)
    then have "advance u h = h\<lparr>clock := max (clock h) u\<rparr>"
      using assms(2) Until t by (simp add: advance_later)
    then show ?thesis
      using assms(1) Until by (simp add: waiting_def wf_clock)
  qed
qed

lemma waiting_run:
  "waiting t h \<Longrightarrow> \<forall>s\<in>set sigs. band_signal (fst t) s \<Longrightarrow> waiting t (run sigs h)"
  by (induction sigs arbitrary: h) (simp_all add: waiting_step)

lemma waiting_fires:
  assumes "waiting (due, i) h"
  shows "state (config (advance due h)) = idle \<and> hook_levels (advance due h) = []"
proof -
  from assms have wf: "wf_hook h" and st: "state (config h) = listening"
    and it: "idleTimeoutRef h = Some (due, i)" and q: "arg_micLevel h \<le> 0.1"
    by (simp_all add: waiting_def)
  note D = wf_hookD [OF wf]
  have none: "wakeTimeout h = None" "sleepTimeoutRef h = None"
    using wf st by (simp_all add: wf_no_wakeTimeout wf_no_sleepTimeout)
  have nt: "next_timeout h = Some (due, listeningToIdle)"
    using it none by (simp add: next_timeout_only_idle)
  let ?c = "idle_callback (h\<lparr>clock := max (clock h) due, idleTimeoutRef := None\<rparr>)"
  let ?f = "fire listeningToIdle (h\<lparr>clock := max (clock h) due\<rparr>)"
  have f: "?f = settle ?c" by (simp add: fire_def)
  have c: "state (config ?c) = idle" "levels (config ?c) = []" "dep_state ?c = listening"
    "idleTimeoutRef ?c = None" "wakeTimeout ?c = None" "arg_micLevel ?c = arg_micLevel h"
    "clock ?c = max (clock h) due"
    using D(1) st none by (simp_all add: idle_callback_def)
  have u: "\<not> settled ?c" using c by (simp add: settled_def)
  have fs: "state (config ?f) = idle"
    using c q by (simp add: f settle_state)
  have fl: "levels (config ?f) = []"
    using c q by (simp add: f settle_levels)
  have fw: "wakeTimeout ?f = None"
    using c u by (simp add: f settle_wakeTimeout_eq)
  have fi: "idleTimeoutRef ?f = None"
    using c q by (simp add: f settle_idleTimeoutRef_eq)
  have fz: "sleepTimeoutRef ?f
              = (if arg_micLevel h < 0.03 then Some (max (clock h) due + 10000, nextTimerId ?c)
                 else None)"
    using c by (simp add: f settle_sleepTimeoutRef_eq)
  have rest: "advance due ?f = ?f\<lparr>clock := max (clock ?f) due\<rparr>"
  proof (cases "arg_micLevel h < 0.03")
    case True
    then have "next_timeout ?f = Some (max (clock h) due + 10000, idleToSleep)"
      using fw fi fz by (simp add: next_timeout_only_sleep)
    then show ?thesis by (rule advance_later) simp
  next
    case False
    then have "next_timeout ?f = None"
      using fw fi fz by (simp add: next_timeout_no_timer)
    then show ?thesis by (rule advance_none)
  qed
  have "advance due h = advance due ?f"
    using nt by (rule advance_due) simp
  then show ?thesis
    using rest fs fl by (simp add: hook_levels_def)
qed

text \<open>
  C10.  In \<open>listening\<close>, a sample below 0.03 starts the idle-reversion timeout, due 3000 ms
  later.  While the amplitude then stays in the band from 0.03 to 0.1 the timeout stays
  pending, unchanged; a microphone sample removes it only when it is above 0.1, and a
  backend event arriving in that stretch does not remove it.  At its due time it runs and
  the logical state becomes \<open>idle\<close> with empty levels.
\<close>

theorem idle_reversion_timer:
  assumes "wf_hook h" and "state (config h) = listening"
    and "a0 < 0.03" and "a0 \<noteq> arg_micLevel h"
    and "\<forall>s\<in>set sigs. band_signal (clock h + 3000) s"
  shows "idleTimeoutRef (on_micLevel a0 h) = Some (clock h + 3000, nextTimerId h)
       \<and> idleTimeoutRef (run sigs (on_micLevel a0 h)) = Some (clock h + 3000, nextTimerId h)
       \<and> state (config (run sigs (on_micLevel a0 h))) = listening
       \<and> (idleTimeoutRef (on_micLevel a (run sigs (on_micLevel a0 h))) = None \<longrightarrow> a > 0.1)
       \<and> idleTimeoutRef (on_backendEvent e (run sigs (on_micLevel a0 h))) \<noteq> None
       \<and> state (config (advance (clock h + 3000) (run sigs (on_micLevel a0 h)))) = idle
       \<and> hook_levels (advance (clock h + 3000) (run sigs (on_micLevel a0 h))) = []"
proof -
  let ?t = "(clock h + 3000, nextTimerId h)"
  let ?h1 = "on_micLevel a0 h"
  let ?hb = "run sigs ?h1"
  have i1: "idleTimeoutRef ?h1 = Some ?t"
    using assms(2,3) by (simp add: on_micLevel_idleTimeoutRef [OF assms(1,4)] mic_blocked_def)
  have s1: "state (config ?h1) = listening"
    using assms(2) by (simp add: on_micLevel_state [OF assms(1)])
  have w1: "waiting ?t ?h1"
    using i1 s1 assms(3) wf_on_micLevel [OF assms(1), of a0] by (simp add: waiting_def)
  have wb: "waiting ?t ?hb"
    using w1 assms(5) by (intro waiting_run) simp_all
  then have wf: "wf_hook ?hb" and sb: "state (config ?hb) = listening"
    and ib: "idleTimeoutRef ?hb = Some ?t" and qb: "arg_micLevel ?hb \<le> 0.1"
    by (simp_all add: waiting_def)
  have only: "a > 0.1" if "idleTimeoutRef (on_micLevel a ?hb) = None"
  proof (cases "a = arg_micLevel ?hb")
    case True
    then show ?thesis using that ib by (simp add: on_micLevel_def)
  next
    case False
    show ?thesis
      using that ib sb
      by (simp add: on_micLevel_idleTimeoutRef [OF wf False] mic_blocked_def split: if_splits)
  qed
  have be: "idleTimeoutRef (on_backendEvent e ?hb) \<noteq> None"
    using ib by (intro on_backendEvent_idleTimeoutRef [OF wf qb]) simp
  show ?thesis
    using i1 ib sb only be waiting_fires [OF wb] by simp
qed

theorem idle_reversion_timer_witness:
  "wf_hook (on_micLevel 0.5 (mount 1000))
   \<and> state (config (on_micLevel 0.5 (mount 1000))) = listening
   \<and> band_signal 4000 (Until 2000) \<and> band_signal 4000 (MicLevel 0.05)
   \<and> band_signal 4000 (Until 3999)
   \<and> idleTimeoutRef (run [Until 2000, MicLevel 0.05, Until 3999]
        (on_micLevel 0.01 (on_micLevel 0.5 (mount 1000)))) = Some (4000, 1)
   \<and> state (config (advance 4000 (run [Until 2000, MicLevel 0.05, Until 3999]
        (on_micLevel 0.01 (on_micLevel 0.5 (mount 1000)))))) = idle"
proof -
  let ?h = "on_micLevel 0.5 (mount 1000)"
  have wf: "wf_hook ?h" by (rule wf_on_micLevel [OF wf_mount])
  have f: "state (config ?h) = listening" "arg_micLevel ?h = 0.5" "clock (mount 1000) = 1000"
    "nextTimerId ?h = 1"
    by (simp_all add: hook_eval)
  have b: "\<forall>s\<in>set [Until 2000, MicLevel 0.05, Until 3999]. band_signal (clock ?h + 3000) s"
    by (simp add: f)
  have a: "(0.01::real) < 0.03" "(0.01::real) \<noteq> arg_micLevel ?h"
    by (simp_all add: f)
  show ?thesis
    using idle_reversion_timer [OF wf f(1) a b] wf f b
    by simp
qed

subsection \<open>The wake hold\<close>

lemma on_backendEvent_fields:
  assumes "wf_hook h"
  shows "clock (on_backendEvent e h) = clock h"
    and "arg_micLevel (on_backendEvent e h) = arg_micLevel h"
    and "arg_isBlinking (on_backendEvent e h) = arg_isBlinking h"
  by (simp_all add: on_backendEvent_settle [OF assms])

lemma wake_event_hook:
  assumes "wf_hook h" and "state (config h) \<noteq> wake" and "clock h \<noteq> 0"
    and "idleTimeoutRef h = None" and "event e = ''wake''"
  shows "state (config (on_backendEvent e h)) = wake"
    and "wakeTimeout (on_backendEvent e h) = Some (clock h + 500, nextTimerId h)"
    and "idleTimeoutRef (on_backendEvent e h) = None"
    and "sleepTimeoutRef (on_backendEvent e h) = None"
proof -
  let ?h1 = "backend_effect e h"
  have s1: "state (config ?h1) = wake"
    using assms(5) by (simp add: backend_effect_state)
  have u: "\<not> settled ?h1"
    using s1 assms(2) wf_hookD(1) [OF assms(1)] by (simp add: settled_def)
  show s: "state (config (on_backendEvent e h)) = wake"
    using s1 by (simp add: on_backendEvent_state [OF assms(1)])
  show "wakeTimeout (on_backendEvent e h) = Some (clock h + 500, nextTimerId h)"
    using u s1 assms(3,5)
    by (simp add: on_backendEvent_settle [OF assms(1)] settle_wakeTimeout_eq
          backend_effect_wakeStartTime truthy_def)
  show "idleTimeoutRef (on_backendEvent e h) = None"
    using s1 assms(4)
    by (simp add: on_backendEvent_settle [OF assms(1)] settle_idleTimeoutRef_eq mic_blocked_def)
  show "sleepTimeoutRef (on_backendEvent e h) = None"
    using s wf_on_backendEvent [OF assms(1), of e] by (simp add: wf_no_sleepTimeout)
qed

lemma wake_hold_fires:
  assumes "wf_hook h" and "state (config h) = wake" and "idleTimeoutRef h = None"
    and "arg_micLevel h \<le> 0.1"
  shows "state (config (fire wakeHold h)) = idle"
    and "wakeTimeout (fire wakeHold h) = None"
    and "idleTimeoutRef (fire wakeHold h) = None"
    and "arg_micLevel h < 0.03 \<Longrightarrow>
           \<exists>i. sleepTimeoutRef (fire wakeHold h) = Some (clock h + 10000, i)"
    and "\<not> arg_micLevel h < 0.03 \<Longrightarrow> sleepTimeoutRef (fire wakeHold h) = None"
    and "arg_isBlinking (fire wakeHold h) = arg_isBlinking h"
    and "arg_micLevel (fire wakeHold h) = arg_micLevel h"
proof -
  let ?c = "wake_callback (h\<lparr>wakeTimeout := None\<rparr>)"
  have f: "fire wakeHold h = settle ?c" by (simp add: fire_def)
  have c: "state (config ?c) = idle" "dep_state ?c = wake" "wakeTimeout ?c = None"
    "idleTimeoutRef ?c = None" "arg_micLevel ?c = arg_micLevel h" "clock ?c = clock h"
    using wf_hookD(1) [OF assms(1)] assms(2,3) by (simp_all add: wake_callback_def)
  have u: "\<not> settled ?c" using c by (simp add: settled_def)
  show "state (config (fire wakeHold h)) = idle"
    using c assms(4) by (simp add: f settle_state)
  show "wakeTimeout (fire wakeHold h) = None"
    using c u by (simp add: f settle_wakeTimeout_eq)
  show "idleTimeoutRef (fire wakeHold h) = None"
    using c assms(4) by (simp add: f settle_idleTimeoutRef_eq)
  show "\<exists>i. sleepTimeoutRef (fire wakeHold h) = Some (clock h + 10000, i)"
    if "arg_micLevel h < 0.03"
    using c that by (simp add: f settle_sleepTimeoutRef_eq)
  show "sleepTimeoutRef (fire wakeHold h) = None" if "\<not> arg_micLevel h < 0.03"
    using c that by (simp add: f settle_sleepTimeoutRef_eq)
  show "arg_isBlinking (fire wakeHold h) = arg_isBlinking h"
    by (simp add: f wake_callback_def)
  show "arg_micLevel (fire wakeHold h) = arg_micLevel h"
    by (simp add: f wake_callback_def)
qed

lemma sleep_timeout_fires:
  assumes "wf_hook h" and "state (config h) = idle" and "idleTimeoutRef h = None"
  shows "state (config (fire idleToSleep h)) = sleep"
    and "next_timeout (fire idleToSleep h) = None"
    and "arg_isBlinking (fire idleToSleep h) = arg_isBlinking h"
proof -
  let ?c = "sleep_callback (h\<lparr>sleepTimeoutRef := None\<rparr>)"
  have f: "fire idleToSleep h = settle ?c" by (simp add: fire_def)
  have w: "wakeTimeout h = None"
    using assms(1,2) by (simp add: wf_no_wakeTimeout)
  have c: "state (config ?c) = sleep" "dep_state ?c = idle" "wakeTimeout ?c = None"
    "idleTimeoutRef ?c = None" "sleepTimeoutRef ?c = None"
    using wf_hookD(1) [OF assms(1)] assms(2,3) w by (simp_all add: sleep_callback_def)
  have u: "\<not> settled ?c" using c by (simp add: settled_def)
  show "state (config (fire idleToSleep h)) = sleep"
    using c by (simp add: f settle_state mic_blocked_def)
  have "wakeTimeout (settle ?c) = None"
    using c u by (simp add: settle_wakeTimeout_eq)
  moreover have "idleTimeoutRef (settle ?c) = None"
    using c by (simp add: settle_idleTimeoutRef_eq mic_blocked_def)
  moreover have "sleepTimeoutRef (settle ?c) = None"
    using c by (simp add: settle_sleepTimeoutRef_eq)
  ultimately show "next_timeout (fire idleToSleep h) = None"
    by (simp add: f next_timeout_no_timer)
  show "arg_isBlinking (fire idleToSleep h) = arg_isBlinking h"
    by (simp add: f sleep_callback_def)
qed

text \<open>
  The hold when nothing is left over from before: a \<open>wake\<close> event that moves the hook into
  \<open>wake\<close> (at a clock other than 0, with no idle-reversion timeout pending), followed by
  nothing but time, with the blink flag off and the microphone level at most 0.1.  The
  displayed state is \<open>wake\<close> at every instant before 500 ms and \<open>idle\<close> from 500 ms on, until
  the sleep timeout started as the hold ended (when the microphone level is below 0.03)
  makes it \<open>sleep\<close> at 10500 ms.  A pending wake timeout always belongs to the state \<open>wake\<close>,
  and a backend event of another kind cancels it.
\<close>

lemma wake_hold:
  assumes "wf_hook h" and "state (config h) \<noteq> wake" and "clock h \<noteq> 0"
    and "idleTimeoutRef h = None" and "arg_micLevel h \<le> 0.1" and "\<not> arg_isBlinking h"
    and "event e = ''wake''"
  shows "(d < 500 \<longrightarrow> hook_state (advance (clock h + d) (on_backendEvent e h)) = wake)
       \<and> (500 \<le> d \<and> (d < 10500 \<or> 0.03 \<le> arg_micLevel h) \<longrightarrow>
            hook_state (advance (clock h + d) (on_backendEvent e h)) = idle)
       \<and> (10500 \<le> d \<and> arg_micLevel h < 0.03 \<longrightarrow>
            hook_state (advance (clock h + d) (on_backendEvent e h)) = sleep)
       \<and> (wakeTimeout (run sigs (on_backendEvent e h)) \<noteq> None \<longrightarrow>
            state (config (run sigs (on_backendEvent e h))) = wake)
       \<and> (d < 500 \<and> event_state (event e') = Some s \<and> s \<noteq> wake \<longrightarrow>
            wakeTimeout (on_backendEvent e' (advance (clock h + d) (on_backendEvent e h))) = None)"
proof -
  let ?hw = "on_backendEvent e h"
  let ?T = "clock h + d"
  note W = wake_event_hook [OF assms(1,2,3,4,7)]
  note F = on_backendEvent_fields [OF assms(1), of e]
  have wfw: "wf_hook ?hw" by (rule wf_on_backendEvent [OF assms(1)])
  have ntw: "next_timeout ?hw = Some (clock h + 500, wakeHold)"
    using W by (simp add: next_timeout_only_wake)
  have early: "advance ?T ?hw = ?hw\<lparr>clock := max (clock ?hw) ?T\<rparr>" if "d < 500"
    using ntw by (rule advance_later) (use that in simp)
  let ?h5 = "?hw\<lparr>clock := max (clock ?hw) (clock h + 500)\<rparr>"
  let ?hf = "fire wakeHold ?h5"
  have wf5: "wf_hook ?h5" using wfw by (simp add: wf_clock)
  have h5: "state (config ?h5) = wake" "idleTimeoutRef ?h5 = None"
    "arg_micLevel ?h5 \<le> 0.1" "clock ?h5 = clock h + 500"
    using W F assms(5) by simp_all
  note X = wake_hold_fires [OF wf5 h5(1,2,3)]
  have wff: "wf_hook ?hf" by (rule wf_fire [OF wf5])
  have late: "advance ?T ?hw = advance ?T ?hf" if "500 \<le> d"
    using ntw by (rule advance_due) (use that in simp)
  have blink_f: "\<not> arg_isBlinking ?hf"
    using X(6) F assms(6) by simp
  have c1: "hook_state (advance ?T ?hw) = wake" if "d < 500"
    using early [OF that] W(1) F assms(6) by (simp add: hook_state_def finalState_def)
  have c2: "hook_state (advance ?T ?hw) = idle"
    if "500 \<le> d \<and> (d < 10500 \<or> 0.03 \<le> arg_micLevel h)"
  proof (cases "arg_micLevel h < 0.03")
    case True
    then obtain i where "sleepTimeoutRef ?hf = Some (clock ?h5 + 10000, i)"
      using X(4) F by auto
    then have "next_timeout ?hf = Some (clock h + 10500, idleToSleep)"
      using X(2,3) F by (simp add: next_timeout_only_sleep)
    then have "advance ?T ?hf = ?hf\<lparr>clock := max (clock ?hf) ?T\<rparr>"
      by (rule advance_later) (use that True in simp)
    then show ?thesis
      using late that X(1) blink_f by (simp add: hook_state_def finalState_def)
  next
    case False
    then have "sleepTimeoutRef ?hf = None" using X(5) F by simp
    then have "next_timeout ?hf = None"
      using X(2,3) by (simp add: next_timeout_no_timer)
    then have "advance ?T ?hf = ?hf\<lparr>clock := max (clock ?hf) ?T\<rparr>"
      by (rule advance_none)
    then show ?thesis
      using late that X(1) blink_f by (simp add: hook_state_def finalState_def)
  qed
  have c3: "hook_state (advance ?T ?hw) = sleep" if late3: "10500 \<le> d \<and> arg_micLevel h < 0.03"
  proof -
    obtain i where "sleepTimeoutRef ?hf = Some (clock ?h5 + 10000, i)"
      using X(4) F late3 by auto
    then have nt: "next_timeout ?hf = Some (clock h + 10500, idleToSleep)"
      using X(2,3) F by (simp add: next_timeout_only_sleep)
    let ?h6 = "?hf\<lparr>clock := max (clock ?hf) (clock h + 10500)\<rparr>"
    let ?hs = "fire idleToSleep ?h6"
    have wf6: "wf_hook ?h6" using wff by (simp add: wf_clock)
    have h6: "state (config ?h6) = idle" "idleTimeoutRef ?h6 = None"
      using X(1,3) by simp_all
    note Y = sleep_timeout_fires [OF wf6 h6]
    have "advance ?T ?hf = advance ?T ?hs"
      using nt by (rule advance_due) (use late3 in simp)
    moreover have "advance ?T ?hs = ?hs\<lparr>clock := max (clock ?hs) ?T\<rparr>"
      using Y(2) by (rule advance_none)
    moreover have "500 \<le> d" using late3 by simp
    ultimately show ?thesis
      using late Y(1,3) blink_f by (simp add: hook_state_def finalState_def)
  qed
  have c4: "state (config (run sigs ?hw)) = wake" if "wakeTimeout (run sigs ?hw) \<noteq> None"
    using wf_hookD(5) [OF wf_run [OF wfw, of sigs]] that by blast
  have c5: "wakeTimeout (on_backendEvent e' (advance ?T ?hw)) = None"
    if "d < 500 \<and> event_state (event e') = Some s \<and> s \<noteq> wake"
  proof -
    have "wf_hook (advance ?T ?hw)" by (rule wf_advance [OF wfw])
    moreover have "state (config (backend_effect e' (advance ?T ?hw))) \<noteq> wake"
      using that backend_effect_event_state [of e' s] by simp
    ultimately show ?thesis by (rule on_backendEvent_wakeTimeout)
  qed
  show ?thesis
    using c1 c2 c3 c4 c5 by blast
qed

lemma wake_hold_at_mount:
  "wf_hook (mount 1000) \<and> state (config (mount 1000)) \<noteq> wake \<and> clock (mount 1000) \<noteq> 0
   \<and> idleTimeoutRef (mount 1000) = None \<and> arg_micLevel (mount 1000) \<le> 0.1
   \<and> \<not> arg_isBlinking (mount 1000)
   \<and> hook_state (advance (1000 + 499)
        (on_backendEvent \<lparr>event = ''wake'', event_levels = None\<rparr> (mount 1000))) = wake
   \<and> hook_state (advance (1000 + 501)
        (on_backendEvent \<lparr>event = ''wake'', event_levels = None\<rparr> (mount 1000))) = idle
   \<and> hook_state (advance (1000 + 10500)
        (on_backendEvent \<lparr>event = ''wake'', event_levels = None\<rparr> (mount 1000))) = sleep"
proof -
  let ?e = "\<lparr>event = ''wake'', event_levels = None\<rparr>"
  have m: "state (config (mount 1000)) = idle" "clock (mount 1000) = 1000"
    "idleTimeoutRef (mount 1000) = None" "arg_micLevel (mount 1000) = 0"
    "arg_isBlinking (mount 1000) = False"
    by (simp_all add: hook_eval)
  have p: "state (config (mount 1000)) \<noteq> wake" "clock (mount 1000) \<noteq> 0"
    "arg_micLevel (mount 1000) \<le> 0.1" "\<not> arg_isBlinking (mount 1000)" "event ?e = ''wake''"
    by (simp_all add: m)
  show ?thesis
    using wake_hold [OF wf_mount p(1,2) m(3) p(3,4,5), where d = 499]
      wake_hold [OF wf_mount p(1,2) m(3) p(3,4,5), where d = 501]
      wake_hold [OF wf_mount p(1,2) m(3) p(3,4,5), where d = 10500]
    by (simp add: wf_mount m)
qed

text \<open>
  C7.  From \<open>wake\<close> with no further event the displayed state should be \<open>wake\<close> up to 499 ms.
  It is not when an idle-reversion timeout is still pending: the effect that owns it
  returns at once in the state \<open>wake\<close> and never clears it.  The hook mounted at time 1000
  listens (level 0.5), then hears silence (level 0.01), which starts the timeout, due at
  4000.  A \<open>wake\<close> event arrives at 3800 and starts the hold, due at 4300.  At 3999 the
  displayed state is \<open>wake\<close>; at 4000, 200 ms after the event, the old timeout runs, the
  displayed state is \<open>idle\<close> and the hold is cleared.
\<close>

theorem wake_cut_short_by_stale_timeout:
  "hook_state (on_backendEvent \<lparr>event = ''wake'', event_levels = None\<rparr>
      (advance 3800 (on_micLevel 0.01 (on_micLevel 0.5 (mount 1000))))) = wake
   \<and> idleTimeoutRef (on_backendEvent \<lparr>event = ''wake'', event_levels = None\<rparr>
      (advance 3800 (on_micLevel 0.01 (on_micLevel 0.5 (mount 1000))))) = Some (4000, 1)
   \<and> wakeTimeout (on_backendEvent \<lparr>event = ''wake'', event_levels = None\<rparr>
      (advance 3800 (on_micLevel 0.01 (on_micLevel 0.5 (mount 1000))))) = Some (4300, 2)
   \<and> hook_state (advance 3999 (on_backendEvent \<lparr>event = ''wake'', event_levels = None\<rparr>
      (advance 3800 (on_micLevel 0.01 (on_micLevel 0.5 (mount 1000)))))) = wake
   \<and> hook_state (advance (3800 + 200) (on_backendEvent \<lparr>event = ''wake'', event_levels = None\<rparr>
      (advance 3800 (on_micLevel 0.01 (on_micLevel 0.5 (mount 1000)))))) = idle
   \<and> wakeTimeout (advance (3800 + 200) (on_backendEvent \<lparr>event = ''wake'', event_levels = None\<rparr>
      (advance 3800 (on_micLevel 0.01 (on_micLevel 0.5 (mount 1000)))))) = None"
  by (simp add: hook_eval advance.simps)

subsection \<open>The level vector\<close>

definition unit_levels :: "real list \<Rightarrow> bool" where
  "unit_levels l = (length l = 12 \<and> (\<forall>x\<in>set l. 0 \<le> x \<and> x \<le> 1))"

text \<open>Levels as the hook stores them: none, or twelve values from 0 to 1.\<close>

definition stored_levels :: "real list \<Rightarrow> bool" where
  "stored_levels l = (l = [] \<or> unit_levels l)"

text \<open>
  A signal the sources of the signals can be expected to send: an amplitude from 0 to 1
  (\<^verbatim>\<open>useMicLevel\<close> clamps to 1.0), and a \<open>talk\<close> event whose levels, when it has any, are
  twelve values from 0 to 1.
\<close>

fun signal_ok :: "Signal \<Rightarrow> bool" where
  "signal_ok (MicLevel a) = (0 \<le> a \<and> a \<le> 1)"
| "signal_ok (Backend e) =
     (case event_levels e of None \<Rightarrow> True | Some l \<Rightarrow> event e = ''talk'' \<longrightarrow> stored_levels l)"
| "signal_ok (Blinking b) = True"
| "signal_ok (Until t) = True"

definition levels_inv :: "Hook \<Rightarrow> bool" where
  "levels_inv h =
     (stored_levels (levels (config h)) \<and> 0 \<le> arg_micLevel h \<and> arg_micLevel h \<le> 1)"

lemma unit_levels_replicate: "0 \<le> a \<Longrightarrow> a \<le> 1 \<Longrightarrow> unit_levels (replicate 12 a)"
  by (simp add: unit_levels_def)

lemma levels_inv_settle:
  assumes "levels_inv h"
  shows "levels_inv (settle h)"
proof -
  from assms have "stored_levels (replicate 12 (arg_micLevel h))"
    by (simp add: levels_inv_def stored_levels_def unit_levels_replicate)
  then show ?thesis
    using assms by (simp add: levels_inv_def settle_levels)
qed

lemma levels_inv_on_backendEvent:
  assumes "wf_hook h" and "levels_inv h" and "signal_ok (Backend e)"
  shows "levels_inv (on_backendEvent e h)"
proof -
  have "levels_inv (backend_effect e h)"
    using assms(2,3)
    by (auto simp add: levels_inv_def backend_effect_levels stored_levels_def
          split: option.splits)
  then show ?thesis
    by (simp add: on_backendEvent_settle [OF assms(1)] levels_inv_settle)
qed

lemma levels_inv_on_micLevel:
  assumes "wf_hook h" and "levels_inv h" and "0 \<le> a" and "a \<le> 1"
  shows "levels_inv (on_micLevel a h)"
proof (cases "a = arg_micLevel h")
  case True
  then show ?thesis using assms(2) by (simp add: on_micLevel_def)
next
  case False
  have "stored_levels (replicate 12 a)"
    using assms(3,4) by (simp add: stored_levels_def unit_levels_replicate)
  then show ?thesis
    using assms(2,3,4)
    by (simp add: levels_inv_def on_micLevel_levels [OF assms(1) False])
qed

lemma levels_inv_fire:
  assumes "levels_inv h"
  shows "levels_inv (fire nm h)"
proof (cases nm)
  case wakeHold
  have "levels_inv (wake_callback (h\<lparr>wakeTimeout := None\<rparr>))"
    using assms by (simp add: levels_inv_def wake_callback_def)
  then show ?thesis using wakeHold by (simp add: fire_def levels_inv_settle)
next
  case listeningToIdle
  have "levels_inv (idle_callback (h\<lparr>idleTimeoutRef := None\<rparr>))"
    using assms by (simp add: levels_inv_def idle_callback_def stored_levels_def)
  then show ?thesis using listeningToIdle by (simp add: fire_def levels_inv_settle)
next
  case idleToSleep
  have "levels_inv (sleep_callback (h\<lparr>sleepTimeoutRef := None\<rparr>))"
    using assms by (simp add: levels_inv_def sleep_callback_def stored_levels_def)
  then show ?thesis using idleToSleep by (simp add: fire_def levels_inv_settle)
qed

lemma levels_inv_clock: "levels_inv (h\<lparr>clock := t\<rparr>) = levels_inv h"
  by (simp add: levels_inv_def)

lemma levels_inv_advance: "levels_inv h \<Longrightarrow> levels_inv (advance t h)"
proof (induction t h rule: advance.induct)
  case (1 t h)
  show ?case
  proof (cases "next_timeout h")
    case None
    then show ?thesis using "1.prems" by (simp add: advance_none levels_inv_clock)
  next
    case (Some x)
    obtain due nm where x: "x = (due, nm)" by (cases x)
    show ?thesis
    proof (cases "due \<le> t")
      case True
      have "levels_inv (fire nm (h\<lparr>clock := max (clock h) due\<rparr>))"
        using "1.prems" by (simp add: levels_inv_fire levels_inv_clock)
      from "1.IH" [OF Some x [symmetric] True this]
      show ?thesis using Some x True by (simp add: advance_due)
    next
      case False
      then show ?thesis
        using Some x "1.prems" by (simp add: advance_later levels_inv_clock)
    qed
  qed
qed

lemma levels_inv_step:
  assumes "wf_hook h" and "levels_inv h" and "signal_ok s"
  shows "levels_inv (step s h)"
proof (cases s)
  case (MicLevel a)
  then show ?thesis using assms by (simp add: levels_inv_on_micLevel)
next
  case (Backend e)
  then show ?thesis using assms levels_inv_on_backendEvent [of h e] by simp
next
  case (Blinking b)
  then show ?thesis using assms(2) by (simp add: levels_inv_def on_isBlinking_def)
next
  case (Until t)
  then show ?thesis using assms(2) by (simp add: levels_inv_advance)
qed

lemma levels_inv_run:
  "wf_hook h \<Longrightarrow> levels_inv h \<Longrightarrow> \<forall>s\<in>set sigs. signal_ok s \<Longrightarrow> levels_inv (run sigs h)"
  by (induction sigs arbitrary: h) (simp_all add: levels_inv_step wf_step)

lemma levels_inv_mount: "levels_inv (mount t0)"
proof -
  let ?h = "initial_hook t0"
  have "levels_inv (sleep_effect (config ?h) (listening_effect (config ?h)
               (wake_effect (config ?h) (mic_effect ?h))))"
    by (simp add: levels_inv_def listening_effect_levels initial_hook_def stored_levels_def
          mic_blocked_def)
  then show ?thesis by (simp add: mount_def Let_def levels_inv_settle)
qed

subsection \<open>The synthesized vectors\<close>

lemma foldl_plus_sum_list: "foldl (+) a xs = a + sum_list (xs :: real list)"
  by (induction xs arbitrary: a) simp_all

lemma sum_list_unit_bounds:
  "\<forall>x\<in>set xs. 0 \<le> x \<and> x \<le> (1::real) \<Longrightarrow> 0 \<le> sum_list xs \<and> sum_list xs \<le> real (length xs)"
  by (induction xs) auto

lemma column_average_unit:
  assumes "\<And>row col. 0 \<le> f row col \<and> f row col \<le> (1::real)"
  shows "unit_levels (column_average (map (\<lambda>row. map (\<lambda>col. f row col) [0..<12]) [0..<7]))"
proof -
  let ?frames = "map (\<lambda>row. map (\<lambda>col. f row col) [0..<12]) [0..<7]"
  define g where "g col = foldl (+) 0 (map (\<lambda>row. row ! col) ?frames)
                            / real (length (map (\<lambda>row. row ! col) ?frames))" for col
  have ca: "column_average ?frames = map g [0..<12]"
    unfolding column_average_def Let_def g_def ..
  have avg: "0 \<le> g col \<and> g col \<le> 1" if "col < 12" for col
  proof -
    have col: "map (\<lambda>row. row ! col) ?frames = map (\<lambda>row. f row col) [0..<7]"
      using that by simp
    have "\<forall>x\<in>set (map (\<lambda>row. f row col) [0..<7]). 0 \<le> x \<and> x \<le> 1"
      using assms by simp
    from sum_list_unit_bounds [OF this]
    have "0 \<le> sum_list (map (\<lambda>row. f row col) [0..<7])"
      and "sum_list (map (\<lambda>row. f row col) [0..<7]) \<le> 7"
      by simp_all
    then show ?thesis
      unfolding g_def by (simp only: col foldl_plus_sum_list) simp
  qed
  show ?thesis
    unfolding ca unit_levels_def using avg by auto
qed

lemma unit_affine:
  fixes s :: real
  assumes "- 1 \<le> s" and "s \<le> 1" and "0 \<le> b" and "0 \<le> a" and "a \<le> b" and "a + b \<le> 1"
  shows "0 \<le> s * a + b" and "s * a + b \<le> 1"
proof -
  have "- a \<le> s * a" using assms(1,4) by (metis mult_minus1 mult_right_mono)
  then show "0 \<le> s * a + b" using assms(5) by simp
  have "s * a \<le> a" using assms(2,4) by (metis mult_1 mult_right_mono)
  then show "s * a + b \<le> 1" using assms(6) by simp
qed

lemma idle_cell_unit: "0 \<le> idle_cell frame col \<and> idle_cell frame col \<le> 1"
proof -
  define s where "s = sin ((real col + real frame * 0.1) * 0.5)"
  have "- 1 \<le> s" "s \<le> 1"
    unfolding s_def by (rule sin_ge_minus_one, rule sin_le_one)
  from unit_affine [OF this, of "0.3" "0.3"]
  have "0 \<le> s * 0.3 + 0.3" "s * 0.3 + 0.3 \<le> 1" by simp_all
  then have "0 \<le> max 0 (s * 0.3 + 0.3) \<and> max 0 (s * 0.3 + 0.3) \<le> 1" by simp
  then show ?thesis unfolding idle_cell_def s_def .
qed

lemma wake_cell_unit:
  "0 \<le> wake_cell frame rows cols row col \<and> wake_cell frame rows cols row col \<le> 1"
proof -
  define s where "s = sin (real frame * 0.3)"
  define q where "q = sqrt ((real row - real (rows div 2))\<^sup>2 + (real col - real (cols div 2))\<^sup>2)
            / sqrt ((real rows)\<^sup>2 + (real cols)\<^sup>2)"
  define m where "m = max 0 (1 - q * 2)"
  have "- 1 \<le> s" "s \<le> 1"
    unfolding s_def by (rule sin_ge_minus_one, rule sin_le_one)
  from unit_affine [OF this, of "0.5" "0.5"]
  have p: "0 \<le> s * 0.5 + 0.5" "s * 0.5 + 0.5 \<le> 1" by simp_all
  have "0 \<le> q" unfolding q_def by simp
  then have m: "0 \<le> m" "m \<le> 1" unfolding m_def by simp_all
  define x where "x = m * (s * 0.5 + 0.5)"
  have "0 \<le> x" unfolding x_def using m p by (intro mult_nonneg_nonneg)
  moreover have "x \<le> 1" unfolding x_def using m p by (intro mult_le_one)
  ultimately have "0 \<le> x * 0.9 \<and> x * 0.9 \<le> 1"
    by simp
  then show ?thesis unfolding wake_cell_def Let_def x_def m_def q_def s_def .
qed

lemma thinking_cell_unit: "0 \<le> thinking_cell frame row col \<and> thinking_cell frame row col \<le> 1"
proof -
  define s where "s = sin (real frame * 0.2)"
  have "- 1 \<le> s" "s \<le> 1"
    unfolding s_def by (rule sin_ge_minus_one, rule sin_le_one)
  from unit_affine [OF this, of "0.5" "0.4"]
  have p: "0 \<le> s * 0.4 + 0.5" "s * 0.4 + 0.5 \<le> 1" by simp_all
  then have "0 \<le> (s * 0.4 + 0.5) * 0.3 \<and> (s * 0.4 + 0.5) * 0.3 \<le> 1" by simp
  then have "0 \<le> (if js_rem (real col + real row + real frame * 0.2) 4 < 2
                   then s * 0.4 + 0.5 else (s * 0.4 + 0.5) * 0.3)
           \<and> (if js_rem (real col + real row + real frame * 0.2) 4 < 2
                   then s * 0.4 + 0.5 else (s * 0.4 + 0.5) * 0.3) \<le> 1"
    using p by simp
  then show ?thesis unfolding thinking_cell_def Let_def s_def .
qed

lemma sleep_cell_unit: "0 \<le> sleep_cell frame \<and> sleep_cell frame \<le> 1"
proof -
  define s where "s = sin (real frame * 0.05)"
  have "- 1 \<le> s" "s \<le> 1"
    unfolding s_def by (rule sin_ge_minus_one, rule sin_le_one)
  from unit_affine [OF this, of "0.1" "0.1"]
  have "0 \<le> s * 0.1 + 0.1 \<and> s * 0.1 + 0.1 \<le> 1" by simp
  then show ?thesis unfolding sleep_cell_def s_def .
qed

lemma blink_cell_unit: "0 \<le> blink_cell row \<and> blink_cell row \<le> 1"
  by (simp add: blink_cell_def)

lemma animationLevels_unit:
  assumes "stored_levels lvls"
  shows "unit_levels (animationLevels st lvls frame)"
proof -
  have z: "unit_levels (replicate 12 0)" by (simp add: unit_levels_def)
  have given: "unit_levels (if length lvls > 0 then lvls else replicate 12 0)"
    using assms z by (auto simp add: stored_levels_def)
  show ?thesis
  proof (cases st)
    case idle
    then show ?thesis
      using column_average_unit [of "\<lambda>row col. idle_cell frame col"] idle_cell_unit
      by (simp add: animationLevels_def generateIdleWave_def)
  next
    case wake
    then show ?thesis
      using column_average_unit [of "\<lambda>row col. wake_cell frame 7 12 row col"] wake_cell_unit
      by (simp add: animationLevels_def generateWakePulse_def)
  next
    case listening
    then show ?thesis using given by (simp add: animationLevels_def)
  next
    case thinking
    then show ?thesis
      using column_average_unit [of "\<lambda>row col. thinking_cell frame row col"] thinking_cell_unit
      by (simp add: animationLevels_def generateThinkingPulse_def)
  next
    case talk
    then show ?thesis using given by (simp add: animationLevels_def)
  next
    case blink
    then show ?thesis
      using column_average_unit [of "\<lambda>row col. blink_cell row"] blink_cell_unit
      by (simp add: animationLevels_def generateBlinkPattern_def)
  next
    case sleep
    then show ?thesis
      using column_average_unit [of "\<lambda>row col. sleep_cell frame"] sleep_cell_unit
      by (simp add: animationLevels_def generateSleepPattern_def)
  qed
qed

lemma emitted_levels_unit:
  assumes "levels_inv h"
  shows "unit_levels (emitted_levels h frame)"
proof -
  have "stored_levels (finalLevels (hook_state h) (hook_levels h) (arg_micLevel h))"
    using assms
    by (simp add: finalLevels_def hook_levels_def levels_inv_def stored_levels_def
          unit_levels_replicate)
  then show ?thesis by (simp add: emitted_levels_def animationLevels_unit)
qed

text \<open>
  C4 (as the code has it).  After every run of operations on the mounted hook (backend
  events, amplitude samples, blink changes, timeouts running as time passes), the level
  vector the face renders has length 12 and every element lies between 0 and 1, provided
  every amplitude lies between 0 and 1 and the levels of every \<open>talk\<close> event, when it has
  any, are twelve values between 0 and 1.  The levels of a \<open>talk\<close> event are rendered as
  they come.
\<close>

theorem emitted_levels_range:
  assumes "\<forall>s\<in>set sigs. signal_ok s"
  shows "length (emitted_levels (run sigs (mount t0)) frame) = 12
       \<and> (\<forall>x\<in>set (emitted_levels (run sigs (mount t0)) frame). 0 \<le> x \<and> x \<le> 1)"
proof -
  have "levels_inv (run sigs (mount t0))"
    using wf_mount levels_inv_mount assms by (rule levels_inv_run)
  then have "unit_levels (emitted_levels (run sigs (mount t0)) frame)"
    by (rule emitted_levels_unit)
  then show ?thesis by (simp add: unit_levels_def)
qed

theorem emitted_levels_range_witness:
  "signal_ok (MicLevel 0.5) \<and> signal_ok (Backend \<lparr>event = ''talk'', event_levels = None\<rparr>)
   \<and> signal_ok (Until 5000)
   \<and> length (emitted_levels
        (run [MicLevel 0.5, Backend \<lparr>event = ''talk'', event_levels = None\<rparr>, Until 5000]
           (mount 1000)) 3) = 12
   \<and> 0 \<le> emitted_levels
        (run [MicLevel 0.5, Backend \<lparr>event = ''talk'', event_levels = None\<rparr>, Until 5000]
           (mount 1000)) 3 ! 11
   \<and> emitted_levels
        (run [MicLevel 0.5, Backend \<lparr>event = ''talk'', event_levels = None\<rparr>, Until 5000]
           (mount 1000)) 3 ! 11 \<le> 1"
proof -
  let ?sigs = "[MicLevel 0.5, Backend \<lparr>event = ''talk'', event_levels = None\<rparr>, Until 5000]"
  have ok: "\<forall>s\<in>set ?sigs. signal_ok s"
    by simp
  note r = emitted_levels_range [OF ok, of 1000 3]
  then have "emitted_levels (run ?sigs (mount 1000)) 3 ! 11
               \<in> set (emitted_levels (run ?sigs (mount 1000)) 3)"
    by (intro nth_mem) simp
  then show ?thesis
    using r by auto
qed

text \<open>
  A \<open>talk\<close> event with the one level 2 is rendered as the vector of length 1 holding 2.
\<close>

theorem talk_levels_unchecked_counterexample:
  "emitted_levels (on_backendEvent \<lparr>event = ''talk'', event_levels = Some [2]\<rparr> (mount 1000)) 0
     = [2]"
  by (simp add: hook_eval animationLevels_def)

end
